theory Spec2Isabelle
  imports Main
begin

section \<open>Symbol tables of the morloc front end (src/frontend/table.c)\<close>

subsection \<open>Data model\<close>

text \<open>
  The class tags that the source files mention. \<open>TType\<close> is the tag of a table entry;
  the header declaring the enumeration is not part of the sources, so which enumerator
  has the value 0 is unknown: the truth test \<open>(t)\<close> of the macro \<open>STCMP\<close> is the
  parameter \<open>nz\<close> of every lookup below.
\<close>

datatype Class =
    T_PATH | C_COMPOSON | C_NEST | C_DEREF | C_MANIFOLD | C_POSITIONAL | C_GRPREF
  | K_LIST | K_PATH | K_LABEL | K_NAME | T_TYPE | P_WS

type_synonym TType = Class

text \<open>An identifier; the source reads only its \<open>name\<close> field (which may be NULL).\<close>

datatype Id = Id (id_name: "string option")

text \<open>The payload of a manifold is opaque to the table layer.\<close>

datatype Manifold = Manifold (m_data: "string list")

text \<open>
  An entry: \<open>id\<close> (nullable), \<open>type\<close> and the union \<open>value\<close>. The \<open>next\<close> link of the
  C structure is the position in the list that holds the entry. A \<open>Table*\<close> is
  \<open>None\<close> for NULL, \<open>Some []\<close> for a table whose head (and tail) is NULL and
  \<open>Some es\<close> for the chain \<open>es\<close> from head to tail.
\<close>

datatype Entry = Entry (e_id: "Id option") (e_type: TType) (e_value: Value)
  and Value =
      V_table "Entry list option"
    | V_manifold "Manifold option"
    | V_string "string option"

type_synonym Table = "Entry list option"

text \<open>A path: one segment and the link to the rest (NULL at the base).\<close>

datatype Path = Path (p_id: "Id option") (p_next: "Path option")

subsection \<open>Failures and diagnostics\<close>

text \<open>
  What stops the process: \<open>exit(EXIT_FAILURE)\<close>, reading through a NULL pointer,
  reading the member of the union that the entry does not hold, and reading through a
  pointer to something that is not an object of the type read.
\<close>

datatype err = Exit_failure | Null_deref | Union_misread | Wild_pointer

text \<open>The lines written to stderr; the process goes on after each of them.\<close>

datatype diag =
    Warn_tailless
  | Err_not_composon
  | Unresolved_grpref
  | Illegal_type
  | Err_invalid_lhs
  | Recursion_into_list
  | Illegal_lhs

text \<open>A computation either stops the process or returns a value and the lines it printed.\<close>

type_synonym 'a res = "err + ('a \<times> diag list)"

definition ret :: "'a \<Rightarrow> 'a res" where
  "ret x = Inr (x, [])"

definition say :: "diag \<Rightarrow> 'a \<Rightarrow> 'a res" where
  "say d x = Inr (x, [d])"

definition rbind :: "'a res \<Rightarrow> ('a \<Rightarrow> 'b res) \<Rightarrow> 'b res" where
  "rbind m f =
     (case m of
        Inl e \<Rightarrow> Inl e
      | Inr (x, l) \<Rightarrow> (case f x of Inl e \<Rightarrow> Inl e | Inr (y, l') \<Rightarrow> Inr (y, l @ l')))"

subsection \<open>Comparison macros\<close>

text \<open>\<open>id_cmp\<close> is not part of the sources: it is the parameter \<open>cmp\<close>.\<close>

definition STCMP :: "(Id \<Rightarrow> Id \<Rightarrow> bool) \<Rightarrow> (TType \<Rightarrow> bool) \<Rightarrow> Entry \<Rightarrow> Id option \<Rightarrow> TType \<Rightarrow> bool" where
  "STCMP cmp nz e i t =
     (case e_id e of
        None \<Rightarrow> False
      | Some a \<Rightarrow> (case i of None \<Rightarrow> False | Some b \<Rightarrow> nz t \<and> cmp a b \<and> e_type e = t))"

definition TCMP :: "Entry option \<Rightarrow> TType \<Rightarrow> bool" where
  "TCMP e t = (case e of None \<Rightarrow> False | Some x \<Rightarrow> e_type x = t)"

definition SCMP :: "(Id \<Rightarrow> Id \<Rightarrow> bool) \<Rightarrow> Entry \<Rightarrow> Id option \<Rightarrow> bool" where
  "SCMP cmp e i =
     (case e_id e of
        None \<Rightarrow> False
      | Some a \<Rightarrow> (case i of None \<Rightarrow> False | Some b \<Rightarrow> cmp a b))"

subsection \<open>Adding and joining\<close>

text \<open>
  \<open>table_add\<close> and \<open>table_join\<close> on table values, as the lookups use them: on results
  that they build themselves. A table without a head has no tail either, and
  \<open>table_add\<close> then drops the entry with a warning.

  Modelled from the spec: \<open>entry_isolate\<close> is not part of the sources. The spec says it
  produces a private single-node view of the entry; with the \<open>next\<close> link kept outside
  the entry, that view has the fields of the entry.
\<close>

definition entry_isolate :: "Entry \<Rightarrow> Entry" where
  "entry_isolate e = e"

fun table_add :: "Table \<Rightarrow> Entry \<Rightarrow> Table res" where
  "table_add None e = ret (Some [entry_isolate e])"
| "table_add (Some []) e = say Warn_tailless (Some [])"
| "table_add (Some (x # xs)) e = ret (Some ((x # xs) @ [entry_isolate e]))"

fun table_join :: "Table \<Rightarrow> Table \<Rightarrow> Table" where
  "table_join a (Some (y # ys)) =
     (case a of
        Some (x # xs) \<Rightarrow> Some ((x # xs) @ (y # ys))
      | _ \<Rightarrow> Some (y # ys))"
| "table_join a b = a"

definition is_recursive :: "TType \<Rightarrow> bool" where
  "is_recursive t = (t = T_PATH \<or> t = C_COMPOSON \<or> t = C_NEST)"

text \<open>Reading \<open>e->value.table\<close>.\<close>

fun value_table :: "Entry \<Rightarrow> Table res" where
  "value_table (Entry i t (V_table tb)) = ret tb"
| "value_table (Entry i t v) = Inl Union_misread"

lemma rbind_cong [fundef_cong]:
  "m = m' \<Longrightarrow> (\<And>x l. m' = Inr (x, l) \<Longrightarrow> f x = f' x) \<Longrightarrow> rbind m f = rbind m' f'"
  by (auto simp: rbind_def split: sum.splits prod.splits)

lemma value_table_size:
  "value_table e = Inr (tb, l) \<Longrightarrow> size_option (size_list size) tb < size e"
  by (cases e; cases "e_value e") (auto simp: ret_def)

subsection \<open>Lookups\<close>

fun table_get_loop ::
  "(Id \<Rightarrow> Id \<Rightarrow> bool) \<Rightarrow> (TType \<Rightarrow> bool) \<Rightarrow> Id option \<Rightarrow> TType \<Rightarrow> Entry list \<Rightarrow> Table \<Rightarrow> Table res" where
  "table_get_loop cmp nz i t [] out = ret out"
| "table_get_loop cmp nz i t (e # es) out =
     rbind (if STCMP cmp nz e i t then table_add out e else ret out)
       (\<lambda>out1. table_get_loop cmp nz i t es out1)"

definition table_get ::
  "(Id \<Rightarrow> Id \<Rightarrow> bool) \<Rightarrow> (TType \<Rightarrow> bool) \<Rightarrow> Table \<Rightarrow> Id option \<Rightarrow> TType \<Rightarrow> Table res" where
  "table_get cmp nz table i t =
     (case table of
        None \<Rightarrow> Inl Null_deref
      | Some es \<Rightarrow> table_get_loop cmp nz i t es None)"

function table_recursive_get_loop ::
  "(Id \<Rightarrow> Id \<Rightarrow> bool) \<Rightarrow> (TType \<Rightarrow> bool) \<Rightarrow> Id option \<Rightarrow> TType \<Rightarrow> Entry list \<Rightarrow> Table \<Rightarrow> Table res"
  and table_recursive_get ::
  "(Id \<Rightarrow> Id \<Rightarrow> bool) \<Rightarrow> (TType \<Rightarrow> bool) \<Rightarrow> Table \<Rightarrow> Id option \<Rightarrow> TType \<Rightarrow> Table res" where
  "table_recursive_get_loop cmp nz i t [] out = ret out"
| "table_recursive_get_loop cmp nz i t (e # es) out =
     rbind (if STCMP cmp nz e i t then table_add out e else ret out)
       (\<lambda>out1.
          rbind
            (if is_recursive (e_type e)
             then rbind (value_table e)
                    (\<lambda>tb. rbind (table_recursive_get cmp nz tb i t)
                       (\<lambda>r. ret (table_join out1 r)))
             else ret out1)
            (\<lambda>out2. table_recursive_get_loop cmp nz i t es out2))"
| "table_recursive_get cmp nz table i t =
     (case table of
        None \<Rightarrow> Inl Null_deref
      | Some es \<Rightarrow> table_recursive_get_loop cmp nz i t es None)"
  by pat_completeness auto
termination
  by (relation "measure (\<lambda>x. case x of
         Inl (cmp, nz, i, t, es, out) \<Rightarrow> size_list size es
       | Inr (cmp, nz, tb, i, t) \<Rightarrow> size_option (size_list size) tb)")
     (auto dest: value_table_size)


text \<open>
  Modelled from the spec: \<open>path_is_base\<close> is not part of the sources. The spec says
  that the last segment of a path is its base; a NULL path is read through.
\<close>

fun path_is_base :: "Path option \<Rightarrow> bool res" where
  "path_is_base None = Inl Null_deref"
| "path_is_base (Some p) = ret (p_next p = None)"

text \<open>Reading \<open>path->id\<close> and \<open>path->next\<close>.\<close>

fun path_id :: "Path option \<Rightarrow> Id option res" where
  "path_id None = Inl Null_deref"
| "path_id (Some p) = ret (p_id p)"

fun path_next :: "Path option \<Rightarrow> Path option res" where
  "path_next None = Inl Null_deref"
| "path_next (Some p) = ret (p_next p)"

text \<open>The test \<open>e->id && e->id->name\<close>: an entry that fails it is anonymous.\<close>

definition named :: "Entry \<Rightarrow> bool" where
  "named e = (case e_id e of None \<Rightarrow> False | Some a \<Rightarrow> id_name a \<noteq> None)"

function table_path_get_loop ::
  "(Id \<Rightarrow> Id \<Rightarrow> bool) \<Rightarrow> (TType \<Rightarrow> bool) \<Rightarrow> Path option \<Rightarrow> TType \<Rightarrow> Entry list \<Rightarrow> Table \<Rightarrow> Table res"
  and table_path_get ::
  "(Id \<Rightarrow> Id \<Rightarrow> bool) \<Rightarrow> (TType \<Rightarrow> bool) \<Rightarrow> Table \<Rightarrow> Path option \<Rightarrow> TType \<Rightarrow> Table res" where
  "table_path_get_loop cmp nz path t [] out = ret out"
| "table_path_get_loop cmp nz path t (e # es) out =
     rbind (path_is_base path)
       (\<lambda>base.
          rbind
            (if base
             then rbind (path_id path)
                    (\<lambda>pid.
                       rbind (if STCMP cmp nz e pid t then table_add out e else ret out)
                         (\<lambda>out1.
                            if is_recursive (e_type e)
                            then rbind (value_table e)
                                   (\<lambda>tb. rbind (table_recursive_get cmp nz tb pid t)
                                      (\<lambda>r. ret (table_join out1 r)))
                            else ret out1))
             else rbind (path_id path)
                    (\<lambda>pid.
                       if is_recursive (e_type e) \<and> (\<not> named e \<or> SCMP cmp e pid)
                       then rbind (value_table e)
                              (\<lambda>tb. rbind (path_next path)
                                 (\<lambda>nx. rbind (table_path_get cmp nz tb nx t)
                                    (\<lambda>r. ret (table_join out r))))
                       else ret out))
            (\<lambda>out2. table_path_get_loop cmp nz path t es out2))"
| "table_path_get cmp nz table path t =
     (case table of
        None \<Rightarrow> ret None
      | Some [] \<Rightarrow> ret None
      | Some (e # es) \<Rightarrow> table_path_get_loop cmp nz path t (e # es) None)"
  by pat_completeness auto
termination
  by (relation "measure (\<lambda>x. case x of
         Inl (cmp, nz, path, t, es, out) \<Rightarrow> size_list size es
       | Inr (cmp, nz, tb, path, t) \<Rightarrow> size_option (size_list size) tb)")
     (auto dest: value_table_size)

subsection \<open>What the lookups are compared with\<close>

text \<open>The entries of the nested table of an entry (none when it holds no table).\<close>

fun nested :: "Entry \<Rightarrow> Entry list" where
  "nested (Entry i t (V_table (Some es))) = es"
| "nested (Entry i t v) = []"

fun holds_table :: "Entry \<Rightarrow> bool" where
  "holds_table (Entry i t (V_table (Some es))) = True"
| "holds_table (Entry i t v) = False"

lemma nested_size: "size_list size (nested e) < size e"
  by (cases e rule: nested.cases) auto

text \<open>
  The pre-order sequence of the entries of a table, descending into the nested table of
  the entries whose type satisfies \<open>d\<close>.
\<close>

function preorder_by :: "(TType \<Rightarrow> bool) \<Rightarrow> Entry list \<Rightarrow> Entry list" where
  "preorder_by d [] = []"
| "preorder_by d (e # es) =
     e # (if d (e_type e) then preorder_by d (nested e) else []) @ preorder_by d es"
  by pat_completeness auto
termination
  by (relation "measure (\<lambda>(d, es). size_list size es)")
     (auto simp: nested_size less_Suc_eq trans_less_add1)

text \<open>The four recursive types as the specification lists them.\<close>

definition four_recursive :: "TType \<Rightarrow> bool" where
  "four_recursive t = (t = T_PATH \<or> t = C_COMPOSON \<or> t = C_NEST \<or> t = C_DEREF)"

text \<open>
  The shape the lookups rely on: every entry they descend into holds a table that is
  not NULL, and so on inside that table.
\<close>

function table_ok :: "Entry list \<Rightarrow> bool" where
  "table_ok [] = True"
| "table_ok (e # es) =
     ((if is_recursive (e_type e) then holds_table e \<and> table_ok (nested e) else True)
      \<and> table_ok es)"
  by pat_completeness auto
termination
  by (relation "measure (size_list size)")
     (auto simp: nested_size less_Suc_eq trans_less_add1)

text \<open>A result table: NULL when nothing was found.\<close>

definition of_list :: "Entry list \<Rightarrow> Table" where
  "of_list xs = (if xs = [] then None else Some xs)"

fun entries :: "Table \<Rightarrow> Entry list" where
  "entries None = []"
| "entries (Some xs) = xs"

text \<open>The entries a lookup found (none when it stopped the process).\<close>

fun found :: "Table res \<Rightarrow> Entry list" where
  "found (Inr (tb, l)) = entries tb"
| "found (Inl e) = []"

text \<open>An entry matches an id and a type: it has an id, the ids compare equal, the types are the same.\<close>

definition id_type_match :: "(Id \<Rightarrow> Id \<Rightarrow> bool) \<Rightarrow> Id \<Rightarrow> TType \<Rightarrow> Entry \<Rightarrow> bool" where
  "id_type_match cmp b t e =
     (case e_id e of None \<Rightarrow> False | Some a \<Rightarrow> cmp a b \<and> e_type e = t)"

fun path_matches ::
  "(Id \<Rightarrow> Id \<Rightarrow> bool) \<Rightarrow> (TType \<Rightarrow> bool) \<Rightarrow> Entry list \<Rightarrow> Path \<Rightarrow> TType \<Rightarrow> Entry list" where
  "path_matches cmp nz es (Path i None) t =
     concat (map (\<lambda>e.
        (if STCMP cmp nz e i t then [e] else []) @
        (if is_recursive (e_type e)
         then filter (\<lambda>x. STCMP cmp nz x i t) (preorder_by is_recursive (nested e))
         else [])) es)"
| "path_matches cmp nz es (Path i (Some q)) t =
     concat (map (\<lambda>e.
        if is_recursive (e_type e) \<and> (\<not> named e \<or> SCMP cmp e i)
        then path_matches cmp nz (nested e) q t
        else []) es)"

text \<open>
  What the specification asks of a lookup at the base segment, with its four recursive
  types: every top-level entry that matches, each followed by every match of the full
  recursive search inside the entry when the entry has one of the four types.
\<close>

definition base_matches_four ::
  "(Id \<Rightarrow> Id \<Rightarrow> bool) \<Rightarrow> (TType \<Rightarrow> bool) \<Rightarrow> Entry list \<Rightarrow> Id option \<Rightarrow> TType \<Rightarrow> Entry list" where
  "base_matches_four cmp nz es i t =
     concat (map (\<lambda>e.
        filter (\<lambda>x. STCMP cmp nz x i t) [e] @
        (if four_recursive (e_type e)
         then filter (\<lambda>x. STCMP cmp nz x i t) (preorder_by four_recursive (nested e))
         else [])) es)"

definition ids_set :: "Table \<Rightarrow> bool" where
  "ids_set tb = list_all (\<lambda>e. e_id e \<noteq> None) (entries tb)"

subsection \<open>Example inputs\<close>

text \<open>Instances of the two parameters: ids compare by name, no type tag is 0.\<close>

definition cmp_name :: "Id \<Rightarrow> Id \<Rightarrow> bool" where
  "cmp_name a b = (id_name a = id_name b)"

definition nz_all :: "TType \<Rightarrow> bool" where
  "nz_all t = True"

definition man :: "string \<Rightarrow> string \<Rightarrow> Entry" where
  "man n d = Entry (Some (Id (Some n))) C_MANIFOLD (V_manifold (Some (Manifold [d])))"

text \<open>The table of \<open>a.b = f\<close> beside \<open>a = f 1\<close> and a top-level manifold \<open>f\<close>.\<close>

definition ex_table :: "Entry list" where
  "ex_table =
     [Entry (Some (Id (Some ''a''))) T_PATH (V_table (Some
        [Entry None C_COMPOSON (V_table (Some
           [man ''f'' ''first'',
            Entry (Some (Id (Some ''1''))) C_POSITIONAL (V_string (Some ''1''))])),
         Entry (Some (Id (Some ''b''))) T_PATH (V_table (Some
           [Entry None C_COMPOSON (V_table (Some [man ''f'' ''second'']))]))])),
      man ''f'' ''third'']"

text \<open>A deref entry whose nested table holds the manifold \<open>x\<close>.\<close>

definition ex_deref :: "Entry list" where
  "ex_deref = [Entry (Some (Id (Some ''d''))) C_DEREF (V_table (Some [man ''x'' ''inner'']))]"


text \<open>An anonymous composon beside a composon named \<open>g\<close>.\<close>

definition ex_named :: "Entry" where
  "ex_named = Entry (Some (Id (Some ''g''))) C_COMPOSON (V_table (Some [man ''f'' ''g-body'']))"

definition ex_anon :: "Entry list" where
  "ex_anon = [Entry None C_COMPOSON (V_table (Some [man ''f'' ''body''])), ex_named]"

subsection \<open>Inputs and outputs of a composon\<close>

text \<open>Reading \<open>table->head\<close> and \<open>table->tail\<close> of a table that holds its chain.\<close>

fun table_head :: "Table \<Rightarrow> Entry option res" where
  "table_head None = Inl Null_deref"
| "table_head (Some []) = ret None"
| "table_head (Some (x # xs)) = ret (Some x)"

fun table_tail :: "Table \<Rightarrow> Entry option res" where
  "table_tail None = Inl Null_deref"
| "table_tail (Some []) = ret None"
| "table_tail (Some (x # xs)) = ret (Some (last (x # xs)))"

lemma table_head_size:
  "table_head tb = Inr (ne, l) \<Longrightarrow> size_option size ne \<le> size_option (size_list size) tb"
  by (cases tb rule: table_head.cases) (auto simp: ret_def)

lemma last_size: "xs \<noteq> [] \<Longrightarrow> size (last xs) < size_list size xs"
  by (induction xs) (auto simp: less_Suc_eq trans_less_add2)

lemma table_tail_size:
  "table_tail tb = Inr (ne, l) \<Longrightarrow> size_option size ne \<le> size_option (size_list size) tb"
  using last_size [of "the tb"]
  by (cases tb rule: table_tail.cases) (auto simp: ret_def simp del: last.simps)

function table_composon_io_loop :: "bool \<Rightarrow> Entry list \<Rightarrow> Table \<Rightarrow> Table res"
  and table_composon_io :: "Entry option \<Rightarrow> bool \<Rightarrow> Table res" where
  "table_composon_io_loop is_input [] result = ret result"
| "table_composon_io_loop is_input (e # es) result =
     rbind
       (if e_type e = C_MANIFOLD \<or> e_type e = C_POSITIONAL \<or> e_type e = C_DEREF
        then table_add result e
        else if e_type e = T_PATH \<or> e_type e = C_NEST
        then rbind (value_table e)
               (\<lambda>tb. rbind (if is_input then table_tail tb else table_head tb)
                  (\<lambda>ne. rbind (table_composon_io ne is_input)
                     (\<lambda>r. ret (table_join result r))))
        else if e_type e = C_GRPREF
        then say Unresolved_grpref result
        else say Illegal_type result)
       (\<lambda>result'. table_composon_io_loop is_input es result')"
| "table_composon_io entry is_input =
     (case entry of
        None \<Rightarrow> ret None
      | Some en \<Rightarrow>
          if \<not> (TCMP entry C_COMPOSON \<or> TCMP entry C_NEST)
          then say Err_not_composon None
          else rbind (value_table en)
                 (\<lambda>tb. case tb of
                    None \<Rightarrow> Inl Null_deref
                  | Some es \<Rightarrow> table_composon_io_loop is_input es None))"
  by pat_completeness auto
termination
proof (relation "measure (\<lambda>x. case x of
         Inl (is_input, es, result) \<Rightarrow> size_list size es
       | Inr (entry, is_input) \<Rightarrow> size_option size entry)", goal_cases)
  case 1
  show ?case by simp
next
  case (2 is_input e es result tb l ne la)
  have "size_option size ne \<le> size_option (size_list size) tb"
    using 2 by (auto split: if_splits dest: table_tail_size table_head_size)
  also have "\<dots> < size e" using 2 by (auto dest: value_table_size)
  finally show ?case by simp
next
  case (3 is_input e es result x l)
  then show ?case by simp
next
  case (4 entry is_input en tb l es)
  then show ?case by (auto dest: value_table_size)
qed

definition table_composon_outputs :: "Entry option \<Rightarrow> Table res" where
  "table_composon_outputs entry = table_composon_io entry False"

definition table_composon_inputs :: "Entry option \<Rightarrow> Table res" where
  "table_composon_inputs entry = table_composon_io entry True"

text \<open>
  The shape of the data model of the specification: every entry of one of the four
  recursive types holds a table that is not NULL, and so on inside that table.
\<close>

function wf_table :: "Entry list \<Rightarrow> bool" where
  "wf_table [] = True"
| "wf_table (e # es) =
     ((if four_recursive (e_type e) then holds_table e \<and> wf_table (nested e) else True)
      \<and> wf_table es)"
  by pat_completeness auto
termination
  by (relation "measure (size_list size)")
     (auto simp: nested_size less_Suc_eq trans_less_add1)

text \<open>The lines a computation printed (none when it stopped the process).\<close>

fun printed :: "'a res \<Rightarrow> diag list" where
  "printed (Inr (x, l)) = l"
| "printed (Inl e) = []"

text \<open>The innermost (last) or outermost (first) entry of a nested table, NULL when it has none.\<close>

definition innermost :: "Entry list \<Rightarrow> Entry option" where
  "innermost es = (if es = [] then None else Some (last es))"

definition outermost :: "Entry list \<Rightarrow> Entry option" where
  "outermost es = (if es = [] then None else Some (hd es))"

text \<open>What one nested entry adds to the result, and what is printed for it.\<close>

definition io_part :: "bool \<Rightarrow> Entry \<Rightarrow> Entry list" where
  "io_part is_input e =
     (if e_type e = C_MANIFOLD \<or> e_type e = C_POSITIONAL \<or> e_type e = C_DEREF then [e]
      else if e_type e = T_PATH \<or> e_type e = C_NEST
      then found (table_composon_io
                    (if is_input then innermost (nested e) else outermost (nested e)) is_input)
      else [])"

definition io_said :: "bool \<Rightarrow> Entry \<Rightarrow> diag list" where
  "io_said is_input e =
     (if e_type e = C_MANIFOLD \<or> e_type e = C_POSITIONAL \<or> e_type e = C_DEREF then []
      else if e_type e = T_PATH \<or> e_type e = C_NEST
      then printed (table_composon_io
                      (if is_input then innermost (nested e) else outermost (nested e)) is_input)
      else if e_type e = C_GRPREF then [Unresolved_grpref]
      else [Illegal_type])"

text \<open>
  A composon with a manifold, a positional, a deref, a group reference and a nest of two
  composons \<open>g\<close> and \<open>h\<close>.
\<close>

definition ex_pos :: "Entry" where
  "ex_pos = Entry (Some (Id (Some ''1''))) C_POSITIONAL (V_string (Some ''1''))"

definition ex_drf :: "Entry" where
  "ex_drf = Entry None C_DEREF (V_table (Some [man ''d'' ''0'']))"

definition ex_nest :: "Entry" where
  "ex_nest = Entry None C_NEST (V_table (Some
     [Entry None C_COMPOSON (V_table (Some [man ''g'' ''2''])),
      Entry None C_COMPOSON (V_table (Some [man ''h'' ''3'']))]))"

definition ex_composon :: "Entry" where
  "ex_composon = Entry None C_COMPOSON (V_table (Some
     [man ''f'' ''1'', ex_pos, ex_drf,
      Entry (Some (Id (Some ''*''))) C_GRPREF (V_string (Some ''grp'')),
      ex_nest]))"

section \<open>Access to the node tree (src/frontend/ws_access.c)\<close>

subsection \<open>Nodes\<close>

text \<open>A label; \<open>label_new_set\<close> takes its two fields.\<close>

datatype Label = Label (l_name: "string option") (l_label: "string option")

text \<open>
  Modelled from the spec: the declaration of \<open>W\<close> is not part of the sources. The spec
  gives a node a class tag and one of three payload shapes: a nested sequence, a couplet
  of a left-hand and a right-hand node, or a terminal payload (a string, a label, a
  manifold). The payload carries its shape here; a \<open>Ws*\<close> is a nullable list as a
  \<open>Table*\<close> is.
\<close>

datatype W = W (w_cls: Class) (w_value: WValue)
  and WValue =
      WV_string "string option"
    | WV_ws "W list option"
    | WV_couplet "W option" "W option"
    | WV_label "Label option"
    | WV_manifold "Manifold option"

type_synonym Ws = "W list option"

datatype VType = V_STRING | V_WS | V_COUPLET | V_LABEL | V_MANIFOLD

text \<open>
  Modelled from the spec: the accessors \<open>g_ws\<close>, \<open>g_lhs\<close>, \<open>g_rhs\<close>, \<open>g_string\<close>,
  \<open>g_label\<close> and the setter \<open>s_lhs\<close> are not part of the sources. Each reads (or
  writes) the payload of the shape its name says; on a node of another shape the read is
  a misread of the union, on a NULL node a read through NULL.
\<close>

fun g_ws :: "W option \<Rightarrow> Ws res" where
  "g_ws None = Inl Null_deref"
| "g_ws (Some (W c (WV_ws l))) = ret l"
| "g_ws (Some (W c v)) = Inl Union_misread"

fun g_lhs :: "W option \<Rightarrow> W option res" where
  "g_lhs None = Inl Null_deref"
| "g_lhs (Some (W c (WV_couplet l r))) = ret l"
| "g_lhs (Some (W c v)) = Inl Union_misread"

fun g_rhs :: "W option \<Rightarrow> W option res" where
  "g_rhs None = Inl Null_deref"
| "g_rhs (Some (W c (WV_couplet l r))) = ret r"
| "g_rhs (Some (W c v)) = Inl Union_misread"

fun g_string :: "W option \<Rightarrow> string option res" where
  "g_string None = Inl Null_deref"
| "g_string (Some (W c (WV_string s))) = ret s"
| "g_string (Some (W c v)) = Inl Union_misread"

fun g_label :: "W option \<Rightarrow> Label option res" where
  "g_label None = Inl Null_deref"
| "g_label (Some (W c (WV_label l))) = ret l"
| "g_label (Some (W c v)) = Inl Union_misread"

fun s_lhs :: "W \<Rightarrow> W \<Rightarrow> W res" where
  "s_lhs (W c (WV_couplet l r)) p = ret (W c (WV_couplet (Some p) r))"
| "s_lhs (W c v) p = Inl Union_misread"

text \<open>
  Modelled from the spec: \<open>get_value_type\<close> and \<open>w_assert_type\<close> are not part of the
  sources. The value type of a node is the shape of its payload; a failed assertion
  stops the process.
\<close>

fun get_value_type :: "W \<Rightarrow> VType" where
  "get_value_type (W c (WV_string s)) = V_STRING"
| "get_value_type (W c (WV_ws l)) = V_WS"
| "get_value_type (W c (WV_couplet l r)) = V_COUPLET"
| "get_value_type (W c (WV_label l)) = V_LABEL"
| "get_value_type (W c (WV_manifold m)) = V_MANIFOLD"

definition w_assert_type :: "W \<Rightarrow> VType \<Rightarrow> unit res" where
  "w_assert_type w ty = (if get_value_type w = ty then ret () else Inl Exit_failure)"

text \<open>
  Modelled from the spec: \<open>w_isolate\<close>, \<open>w_clone_value\<close>, \<open>ws_add\<close> and \<open>ws_length\<close>
  are not part of the sources. Isolating a node gives a private single-node view of it,
  cloning its value gives it a payload of its own (both keep the fields); \<open>ws_add\<close>
  appends an isolated copy; the length of a NULL sequence is 0.
\<close>

definition w_isolate :: "W \<Rightarrow> W" where
  "w_isolate w = w"

definition w_clone_value :: "W \<Rightarrow> W" where
  "w_clone_value w = w"

fun ws_add :: "Ws \<Rightarrow> W \<Rightarrow> Ws" where
  "ws_add None w = Some [w_isolate w]"
| "ws_add (Some xs) w = Some (xs @ [w_isolate w])"

fun ws_length :: "Ws \<Rightarrow> nat" where
  "ws_length None = 0"
| "ws_length (Some xs) = length xs"

subsection \<open>Splitting a couplet\<close>

fun ws_split_couplet_loop :: "W \<Rightarrow> W list \<Rightarrow> Ws \<Rightarrow> Ws res" where
  "ws_split_couplet_loop c [] result = ret result"
| "ws_split_couplet_loop c (p # ps) result =
     rbind (s_lhs (w_clone_value (w_isolate c)) p)
       (\<lambda>nc. ws_split_couplet_loop c ps (ws_add result nc))"

definition ws_split_couplet :: "W \<Rightarrow> Ws res" where
  "ws_split_couplet c =
     rbind (g_lhs (Some c))
       (\<lambda>paths. case paths of
          None \<Rightarrow> Inl Null_deref
        | Some ps \<Rightarrow>
            if w_cls ps = K_LIST
            then rbind (g_ws paths)
                   (\<lambda>l. case l of
                      None \<Rightarrow> Inl Null_deref
                    | Some xs \<Rightarrow> ws_split_couplet_loop c xs None)
            else if w_cls ps = K_PATH \<or> w_cls ps = K_LABEL \<or> w_cls ps = K_NAME
            then ret (ws_add None c)
            else say Err_invalid_lhs None)"

subsection \<open>Recursion along a path\<close>

text \<open>Reading \<open>g_ws(a)->head\<close>.\<close>

fun ws_head :: "Ws \<Rightarrow> W option res" where
  "ws_head None = Inl Null_deref"
| "ws_head (Some []) = ret None"
| "ws_head (Some (x # xs)) = ret (Some x)"

text \<open>\<open>strdup\<close> reads its argument.\<close>

fun strdup :: "string option \<Rightarrow> string option res" where
  "strdup None = Inl Null_deref"
| "strdup (Some s) = ret (Some s)"

definition label_new_set :: "string option \<Rightarrow> string option \<Rightarrow> Label option" where
  "label_new_set n l = Some (Label n l)"

definition ws_get_label_from_lhs :: "W option \<Rightarrow> Label option res" where
  "ws_get_label_from_lhs a =
     (case a of
        None \<Rightarrow> ret None
      | Some x \<Rightarrow>
          if w_cls x = K_NAME
          then rbind (g_string a) (\<lambda>s. rbind (strdup s) (\<lambda>n. ret (label_new_set n None)))
          else if w_cls x = K_LABEL
          then g_label a
          else if w_cls x = K_PATH
          then rbind (g_ws a)
                 (\<lambda>l. if l \<noteq> None then rbind (ws_head l) (\<lambda>h. g_label h) else ret None)
          else if w_cls x = K_LIST
          then say Recursion_into_list None
          else say Illegal_lhs None)"

text \<open>\<open>label_cmp\<close> is not part of the sources: it is the parameter \<open>lcmp\<close>.\<close>

definition ws_cmp_lhs :: "(Label option \<Rightarrow> Label option \<Rightarrow> bool) \<Rightarrow> W \<Rightarrow> W \<Rightarrow> bool res" where
  "ws_cmp_lhs lcmp a b =
     rbind (rbind (g_lhs (Some a)) ws_get_label_from_lhs)
       (\<lambda>a_label. rbind (rbind (g_lhs (Some b)) ws_get_label_from_lhs)
          (\<lambda>b_label. ret (lcmp a_label b_label)))"

definition ws_recurse_path :: "(Label option \<Rightarrow> Label option \<Rightarrow> bool) \<Rightarrow> W \<Rightarrow> W \<Rightarrow> Ws res" where
  "ws_recurse_path lcmp w p =
     rbind (w_assert_type p V_COUPLET)
       (\<lambda>u. if w_cls w = C_NEST
            then g_ws (Some w)
            else if w_cls w = T_PATH
            then rbind (rbind (g_lhs (Some p)) g_ws)
                   (\<lambda>l. rbind (if ws_length l = 1 then ret True else ws_cmp_lhs lcmp w p)
                      (\<lambda>go. if go then rbind (g_rhs (Some w)) g_ws else ret None))
            else ret None)"

subsection \<open>Example nodes\<close>

text \<open>An instance of the parameter \<open>lcmp\<close>: two labels are equal when both exist and have the same name.\<close>

definition lcmp_name :: "Label option \<Rightarrow> Label option \<Rightarrow> bool" where
  "lcmp_name a b =
     (case a of
        None \<Rightarrow> False
      | Some x \<Rightarrow> (case b of None \<Rightarrow> False | Some y \<Rightarrow> l_name x = l_name y))"

definition seg :: "string \<Rightarrow> W" where
  "seg n = W K_LABEL (WV_label (Some (Label (Some n) None)))"

text \<open>The qualified path node \<open>a\<close> with the remainder \<open>[b]\<close>, and a nest with the body \<open>[b]\<close>.\<close>

definition ex_tpath :: "W" where
  "ex_tpath = W T_PATH (WV_couplet (Some (seg ''a'')) (Some (W P_WS (WV_ws (Some [seg ''b''])))))"

definition ex_wnest :: "W" where
  "ex_wnest = W C_NEST (WV_ws (Some [seg ''b'']))"

text \<open>A couplet, standing for a modifier, with a given left-hand side.\<close>

definition couplet_of :: "W \<Rightarrow> W" where
  "couplet_of l = W T_TYPE (WV_couplet (Some l) (Some (W K_NAME (WV_string (Some ''rhs'')))))"

definition kpath :: "W list \<Rightarrow> W" where
  "kpath segs = W K_PATH (WV_ws (Some segs))"

section \<open>Tables in memory (src/frontend/table.c)\<close>

subsection \<open>The store\<close>

text \<open>
  The lookups and the extraction above only read the table they are given and build
  their result from isolated copies, so they are modelled on table values. What the
  claims say about \<open>table_add\<close>, \<open>table_join\<close> and \<open>table_clone\<close> themselves is about
  pointers: which structure is returned, what is allocated, what is shared. For these the
  store is explicit: a pointer is an address or NULL, the store is the list of the
  objects allocated so far, \<open>malloc\<close> appends. The functions on the store carry the
  suffix \<open>_h\<close>.
\<close>

type_synonym addr = nat

type_synonym ptr = "addr option"

text \<open>
  The C structures. The three members of the union \<open>value\<close> are pointers and share
  their storage: \<open>ec_value\<close> is that pointer, read as the \<open>type\<close> says.
\<close>

record entry_cell =
  ec_id :: ptr
  ec_type :: TType
  ec_value :: ptr
  ec_next :: ptr

record table_cell =
  tc_head :: ptr
  tc_tail :: ptr

datatype obj =
    O_entry entry_cell
  | O_table table_cell
  | O_id Id
  | O_string string
  | O_manifold Manifold

type_synonym heap = "obj list"

text \<open>
  A call ends with a value, the new store and the lines it printed, or stops the process,
  or is still running when the fuel of the model is used up.
\<close>

datatype 'a outcome = Done 'a heap "diag list" | Stop err | Timeout

type_synonym 'a hm = "heap \<Rightarrow> 'a outcome"

definition hret :: "'a \<Rightarrow> 'a hm" where
  "hret x h = Done x h []"

definition hsay :: "diag \<Rightarrow> unit hm" where
  "hsay d h = Done () h [d]"

definition hstop :: "err \<Rightarrow> 'a hm" where
  "hstop e h = Stop e"

definition hbind :: "'a hm \<Rightarrow> ('a \<Rightarrow> 'b hm) \<Rightarrow> 'b hm" where
  "hbind m f h =
     (case m h of
        Done x h' l \<Rightarrow>
          (case f x h' of
             Done y h'' l' \<Rightarrow> Done y h'' (l @ l')
           | Stop e \<Rightarrow> Stop e
           | Timeout \<Rightarrow> Timeout)
      | Stop e \<Rightarrow> Stop e
      | Timeout \<Rightarrow> Timeout)"

definition malloc :: "obj \<Rightarrow> ptr hm" where
  "malloc ob h = Done (Some (length h)) (h @ [ob]) []"

text \<open>Reading and writing an object of a given type through a pointer.\<close>

definition get_entry :: "ptr \<Rightarrow> entry_cell hm" where
  "get_entry p h =
     (case p of
        None \<Rightarrow> Stop Null_deref
      | Some a \<Rightarrow>
          if a < length h
          then (case h ! a of O_entry c \<Rightarrow> Done c h [] | _ \<Rightarrow> Stop Wild_pointer)
          else Stop Wild_pointer)"

definition get_table :: "ptr \<Rightarrow> table_cell hm" where
  "get_table p h =
     (case p of
        None \<Rightarrow> Stop Null_deref
      | Some a \<Rightarrow>
          if a < length h
          then (case h ! a of O_table c \<Rightarrow> Done c h [] | _ \<Rightarrow> Stop Wild_pointer)
          else Stop Wild_pointer)"

definition put :: "ptr \<Rightarrow> obj \<Rightarrow> unit hm" where
  "put p ob h =
     (case p of
        None \<Rightarrow> Stop Null_deref
      | Some a \<Rightarrow> if a < length h then Done () (h[a := ob]) [] else Stop Wild_pointer)"

subsection \<open>Adding and joining, in the store\<close>

text \<open>\<open>_table_new\<close>: no copy constructor, no reset.\<close>

definition table_new_h :: "ptr \<Rightarrow> ptr hm" where
  "table_new_h e = malloc (O_table \<lparr>tc_head = e, tc_tail = e\<rparr>)"

text \<open>\<open>_retail\<close>: checkless attachment.\<close>

definition retail_h :: "ptr \<Rightarrow> ptr \<Rightarrow> unit hm" where
  "retail_h t e =
     hbind (get_table t)
       (\<lambda>tc. hbind (get_entry (tc_tail tc))
          (\<lambda>lc. hbind (put (tc_tail tc) (O_entry (lc\<lparr>ec_next := e\<rparr>)))
             (\<lambda>u. put t (O_table (tc\<lparr>tc_tail := e\<rparr>)))))"

text \<open>
  Modelled from the spec: \<open>entry_isolate\<close> is not part of the sources. It gives a
  private single-node view of the entry: a new cell with the fields of the entry and no
  successor (the id and the value are the same pointers); NULL stays NULL.
\<close>

definition entry_isolate_h :: "ptr \<Rightarrow> ptr hm" where
  "entry_isolate_h entry =
     (case entry of
        None \<Rightarrow> hret None
      | Some a \<Rightarrow> hbind (get_entry entry) (\<lambda>c. malloc (O_entry (c\<lparr>ec_next := None\<rparr>))))"

definition table_add_h :: "ptr \<Rightarrow> ptr \<Rightarrow> ptr hm" where
  "table_add_h table entry =
     hbind (entry_isolate_h entry)
       (\<lambda>e. case table of
          None \<Rightarrow> table_new_h e
        | Some t \<Rightarrow>
            hbind (get_table table)
              (\<lambda>tc. if tc_tail tc \<noteq> None
                   then hbind (retail_h table e) (\<lambda>u. hret table)
                   else hbind (hsay Warn_tailless) (\<lambda>u. hret table)))"

text \<open>\<open>_join\<close>.\<close>

definition join_h :: "ptr \<Rightarrow> ptr \<Rightarrow> unit hm" where
  "join_h a b =
     hbind (get_table a)
       (\<lambda>ac. hbind (get_table b)
          (\<lambda>bc. hbind (get_entry (tc_tail ac))
             (\<lambda>lc. hbind (put (tc_tail ac) (O_entry (lc\<lparr>ec_next := tc_head bc\<rparr>)))
                (\<lambda>u. put a (O_table (ac\<lparr>tc_tail := tc_tail bc\<rparr>))))))"

text \<open>The test \<open>t && t->head\<close>.\<close>

definition has_head :: "ptr \<Rightarrow> bool hm" where
  "has_head t =
     (case t of
        None \<Rightarrow> hret False
      | Some a \<Rightarrow> hbind (get_table t) (\<lambda>tc. hret (tc_head tc \<noteq> None)))"

definition table_join_h :: "ptr \<Rightarrow> ptr \<Rightarrow> ptr hm" where
  "table_join_h a b =
     hbind (has_head b)
       (\<lambda>bh. if bh
            then hbind (has_head a)
                   (\<lambda>ah. if ah then hbind (join_h a b) (\<lambda>u. hret a) else hret b)
            else hret a)"

subsection \<open>Chains and tables in the store\<close>

text \<open>
  The addresses of the cells from \<open>p\<close> along \<open>next\<close> to NULL are \<open>as\<close>.
\<close>

fun chain :: "heap \<Rightarrow> ptr \<Rightarrow> addr list \<Rightarrow> bool" where
  "chain h p [] = (p = None)"
| "chain h p (a # as) =
     (p = Some a \<and> a < length h \<and>
      (case h ! a of O_entry c \<Rightarrow> chain h (ec_next c) as | _ \<Rightarrow> False))"

text \<open>The last address of a chain, NULL for the empty one.\<close>

definition last_of :: "addr list \<Rightarrow> ptr" where
  "last_of as = (if as = [] then None else Some (last as))"

text \<open>
  A table pointer holds the entry sequence \<open>as\<close>: NULL holds the empty sequence, a table
  cell holds the chain from its head, and its tail is the last cell of that chain.
\<close>

fun holds :: "heap \<Rightarrow> ptr \<Rightarrow> addr list \<Rightarrow> bool" where
  "holds h None as = (as = [])"
| "holds h (Some t) as =
     (t < length h \<and>
      (case h ! t of
         O_table tc \<Rightarrow> chain h (tc_head tc) as \<and> tc_tail tc = last_of as
       | _ \<Rightarrow> False))"

subsection \<open>Cloning, in the store\<close>

definition get_id :: "ptr \<Rightarrow> Id hm" where
  "get_id p h =
     (case p of
        None \<Rightarrow> Stop Null_deref
      | Some a \<Rightarrow>
          if a < length h
          then (case h ! a of O_id i \<Rightarrow> Done i h [] | _ \<Rightarrow> Stop Wild_pointer)
          else Stop Wild_pointer)"

definition get_string :: "ptr \<Rightarrow> string hm" where
  "get_string p h =
     (case p of
        None \<Rightarrow> Stop Null_deref
      | Some a \<Rightarrow>
          if a < length h
          then (case h ! a of O_string s \<Rightarrow> Done s h [] | _ \<Rightarrow> Stop Wild_pointer)
          else Stop Wild_pointer)"

text \<open>
  Modelled from the spec: \<open>id_clone\<close>, \<open>entry_new\<close> and \<open>manifold_new\<close> are not part
  of the sources. The spec says that a clone has new ids and, for a manifold, a fresh
  empty payload; \<open>entry_new\<close> allocates an entry with the given id, type and value and no
  successor. \<open>strdup\<close> reads the string and allocates a copy.
\<close>

definition id_clone_h :: "ptr \<Rightarrow> ptr hm" where
  "id_clone_h p =
     (case p of
        None \<Rightarrow> hret None
      | Some a \<Rightarrow> hbind (get_id p) (\<lambda>i. malloc (O_id i)))"

definition entry_new_h :: "ptr \<Rightarrow> TType \<Rightarrow> ptr \<Rightarrow> ptr hm" where
  "entry_new_h i t v = malloc (O_entry \<lparr>ec_id = i, ec_type = t, ec_value = v, ec_next = None\<rparr>)"

definition manifold_new_h :: "ptr hm" where
  "manifold_new_h = malloc (O_manifold (Manifold []))"

definition strdup_h :: "ptr \<Rightarrow> ptr hm" where
  "strdup_h p = hbind (get_string p) (\<lambda>s. malloc (O_string s))"

text \<open>The assignment \<open>eclone->value = v\<close>.\<close>

definition set_value_h :: "ptr \<Rightarrow> ptr \<Rightarrow> unit hm" where
  "set_value_h e v = hbind (get_entry e) (\<lambda>c. put e (O_entry (c\<lparr>ec_value := v\<rparr>)))"

definition htimeout :: "'a hm" where
  "htimeout h = Timeout"

text \<open>
  \<open>table_clone\<close> and its loop. The recursion follows pointers, so the model takes fuel:
  one unit for each call and each round of the loop.
\<close>

fun table_clone_loop_h :: "nat \<Rightarrow> ptr \<Rightarrow> ptr \<Rightarrow> ptr hm"
  and table_clone_h :: "nat \<Rightarrow> ptr \<Rightarrow> ptr hm" where
  "table_clone_loop_h 0 e clone = htimeout"
| "table_clone_loop_h (Suc n) e clone =
     (case e of
        None \<Rightarrow> hret clone
      | Some a \<Rightarrow>
          hbind (get_entry e)
            (\<lambda>c. hbind (id_clone_h (ec_id c))
               (\<lambda>i. hbind (entry_new_h i (ec_type c) None)
                  (\<lambda>eclone.
                     hbind
                       (if ec_type c = T_PATH \<or> ec_type c = C_COMPOSON \<or>
                           ec_type c = C_NEST \<or> ec_type c = C_DEREF
                        then hbind (table_clone_h n (ec_value c)) (set_value_h eclone)
                        else if ec_type c = C_MANIFOLD
                        then hbind manifold_new_h (set_value_h eclone)
                        else if ec_type c = C_POSITIONAL \<or> ec_type c = C_GRPREF
                        then hbind (strdup_h (ec_value c)) (set_value_h eclone)
                        else hstop Exit_failure)
                       (\<lambda>u. hbind (table_add_h clone eclone)
                          (\<lambda>clone'. table_clone_loop_h n (ec_next c) clone'))))))"
| "table_clone_h 0 table = htimeout"
| "table_clone_h (Suc n) table =
     (case table of
        None \<Rightarrow> hret None
      | Some t \<Rightarrow> hbind (get_table table) (\<lambda>tc. table_clone_loop_h n (tc_head tc) None))"

subsection \<open>Tables laid out in the store\<close>

text \<open>
  A table value together with the address of each of its objects: the entry cells, the
  table cells, the ids and the payloads.
\<close>

datatype LEntry =
    LEntry (le_addr: addr) (le_id: "(addr \<times> Id) option") (le_type: TType) (le_value: LValue)
  and LValue =
      LV_table LTable
    | LV_manifold "(addr \<times> Manifold) option"
    | LV_string "(addr \<times> string) option"
  and LTable = LNull | LTab addr "LEntry list"

text \<open>The pointers to a laid out table, value and sequence.\<close>

fun tptr :: "LTable \<Rightarrow> ptr" where
  "tptr LNull = None"
| "tptr (LTab a es) = Some a"

fun vptr :: "LValue \<Rightarrow> ptr" where
  "vptr (LV_table tb) = tptr tb"
| "vptr (LV_manifold m) = map_option fst m"
| "vptr (LV_string s) = map_option fst s"

fun head_ptr :: "LEntry list \<Rightarrow> ptr" where
  "head_ptr [] = None"
| "head_ptr (e # es) = Some (le_addr e)"

definition last_ptr :: "LEntry list \<Rightarrow> ptr" where
  "last_ptr es = (if es = [] then None else Some (le_addr (last es)))"

text \<open>The objects of a laid out table, each with its address.\<close>

fun objs_id :: "(addr \<times> Id) option \<Rightarrow> (addr \<times> obj) list" where
  "objs_id None = []"
| "objs_id (Some (b, x)) = [(b, O_id x)]"

fun objs_entries :: "LEntry list \<Rightarrow> (addr \<times> obj) list"
  and objs_value :: "LValue \<Rightarrow> (addr \<times> obj) list"
  and objs_table :: "LTable \<Rightarrow> (addr \<times> obj) list" where
  "objs_entries [] = []"
| "objs_entries (LEntry a i t v # es) =
     (a, O_entry \<lparr>ec_id = map_option fst i, ec_type = t, ec_value = vptr v,
                  ec_next = head_ptr es\<rparr>)
     # objs_id i @ objs_value v @ objs_entries es"
| "objs_value (LV_table tb) = objs_table tb"
| "objs_value (LV_manifold m) = (case m of None \<Rightarrow> [] | Some (b, x) \<Rightarrow> [(b, O_manifold x)])"
| "objs_value (LV_string s) = (case s of None \<Rightarrow> [] | Some (b, x) \<Rightarrow> [(b, O_string x)])"
| "objs_table LNull = []"
| "objs_table (LTab a es) =
     (a, O_table \<lparr>tc_head = head_ptr es, tc_tail = last_ptr es\<rparr>) # objs_entries es"

text \<open>The store contains these objects at these addresses.\<close>

definition contains :: "heap \<Rightarrow> (addr \<times> obj) list \<Rightarrow> bool" where
  "contains h xs = list_all (\<lambda>(a, ob). a < length h \<and> h ! a = ob) xs"

definition addrs :: "(addr \<times> obj) list \<Rightarrow> addr list" where
  "addrs xs = map fst xs"

text \<open>A table under construction is NULL or has an entry.\<close>

fun proper :: "LTable \<Rightarrow> bool" where
  "proper LNull = True"
| "proper (LTab a es) = (es \<noteq> [])"

text \<open>The table value that a laid out table stands for.\<close>

fun erase_entries :: "LEntry list \<Rightarrow> Entry list"
  and erase_value :: "LValue \<Rightarrow> Value"
  and erase_table :: "LTable \<Rightarrow> Table" where
  "erase_entries [] = []"
| "erase_entries (LEntry a i t v # es) =
     Entry (map_option snd i) t (erase_value v) # erase_entries es"
| "erase_value (LV_table tb) = V_table (erase_table tb)"
| "erase_value (LV_manifold m) = V_manifold (map_option snd m)"
| "erase_value (LV_string s) = V_string (map_option snd s)"
| "erase_table LNull = None"
| "erase_table (LTab a es) = Some (erase_entries es)"

subsection \<open>What a clone is compared with\<close>

text \<open>
  The value of the clone of a table: the same ids and types in the same order, the same
  strings, the nested tables cloned, an empty payload for every manifold; a table
  without entries is cloned as NULL.
\<close>

fun cloned_entries :: "Entry list \<Rightarrow> Entry list"
  and cloned_value :: "Value \<Rightarrow> Value" where
  "cloned_entries [] = []"
| "cloned_entries (Entry i t v # es) = Entry i t (cloned_value v) # cloned_entries es"
| "cloned_value (V_table None) = V_table None"
| "cloned_value (V_table (Some es)) =
     V_table (if cloned_entries es = [] then None else Some (cloned_entries es))"
| "cloned_value (V_manifold m) = V_manifold (Some (Manifold []))"
| "cloned_value (V_string s) = V_string s"

definition cloned_table :: "Table \<Rightarrow> Table" where
  "cloned_table tb = of_list (cloned_entries (entries tb))"

text \<open>
  The tables \<open>table_clone\<close> accepts: every entry has one of the seven types of the data
  model and holds what its type says, a string is not NULL, and so on in the nested tables.
\<close>

fun clonable :: "Entry list \<Rightarrow> bool"
  and clonable_value :: "TType \<Rightarrow> Value \<Rightarrow> bool" where
  "clonable [] = True"
| "clonable (Entry i t v # es) = (clonable_value t v \<and> clonable es)"
| "clonable_value t (V_table None) = four_recursive t"
| "clonable_value t (V_table (Some es)) = (four_recursive t \<and> clonable es)"
| "clonable_value t (V_manifold m) = (t = C_MANIFOLD)"
| "clonable_value t (V_string s) = ((t = C_POSITIONAL \<or> t = C_GRPREF) \<and> s \<noteq> None)"

text \<open>No entry of the table, at any depth, is a manifold.\<close>

definition no_manifold :: "Entry list \<Rightarrow> bool" where
  "no_manifold es = list_all (\<lambda>e. e_type e \<noteq> C_MANIFOLD) (preorder_by four_recursive es)"

text \<open>What is compared of two entries: the id, the type and the terminal payload.\<close>

datatype payload = No_payload | Manifold_payload "Manifold option" | String_payload "string option"

fun terminal :: "Value \<Rightarrow> payload" where
  "terminal (V_table tb) = No_payload"
| "terminal (V_manifold m) = Manifold_payload m"
| "terminal (V_string s) = String_payload s"

definition summary :: "Entry \<Rightarrow> Id option \<times> TType \<times> payload" where
  "summary e = (e_id e, e_type e, terminal (e_value e))"

definition flatten_entries :: "Table \<Rightarrow> (Id option \<times> TType \<times> payload) list" where
  "flatten_entries tb = map summary (preorder_by four_recursive (entries tb))"

subsection \<open>An example store\<close>

definition cell :: "ptr \<Rightarrow> ptr \<Rightarrow> obj" where
  "cell v n = O_entry \<lparr>ec_id = Some 0, ec_type = C_POSITIONAL, ec_value = v, ec_next = n\<rparr>"

text \<open>
  The id \<open>x\<close> and the string \<open>1\<close>; the table at 4 with the cells 2 and 3, the table at 6
  with the cell 5, the table at 8 with the cell 7; at 9 a table with a head and no tail.
\<close>

definition ex_heap :: heap where
  "ex_heap =
     [O_id (Id (Some ''x'')), O_string ''1'',
      cell (Some 1) (Some 3), cell (Some 1) None,
      O_table \<lparr>tc_head = Some 2, tc_tail = Some 3\<rparr>,
      cell (Some 1) None,
      O_table \<lparr>tc_head = Some 5, tc_tail = Some 5\<rparr>,
      cell (Some 1) None,
      O_table \<lparr>tc_head = Some 7, tc_tail = Some 7\<rparr>,
      O_table \<lparr>tc_head = Some 2, tc_tail = None\<rparr>]"

text \<open>
  A store with the table at 8: a composon named \<open>a\<close>, whose nested table at 3 has one
  positional, followed by a group reference; the id at 0 and the string at 1 are shared
  by the entries. \<open>ex_lt\<close> is that table with its addresses. The table at 9 has one
  manifold entry.
\<close>

definition ex_store :: heap where
  "ex_store =
     [O_id (Id (Some ''a'')), O_string ''1'',
      cell (Some 1) None,
      O_table \<lparr>tc_head = Some 2, tc_tail = Some 2\<rparr>,
      O_entry \<lparr>ec_id = Some 0, ec_type = C_COMPOSON, ec_value = Some 3, ec_next = Some 5\<rparr>,
      O_entry \<lparr>ec_id = None, ec_type = C_GRPREF, ec_value = Some 1, ec_next = None\<rparr>,
      O_manifold (Manifold [''state'']),
      O_entry \<lparr>ec_id = Some 0, ec_type = C_MANIFOLD, ec_value = Some 6, ec_next = None\<rparr>,
      O_table \<lparr>tc_head = Some 4, tc_tail = Some 5\<rparr>,
      O_table \<lparr>tc_head = Some 7, tc_tail = Some 7\<rparr>]"

definition ex_lt :: LTable where
  "ex_lt =
     LTab 8
       [LEntry 4 (Some (0, Id (Some ''a''))) C_COMPOSON
          (LV_table (LTab 3
             [LEntry 2 (Some (0, Id (Some ''a''))) C_POSITIONAL (LV_string (Some (1, ''1'')))])),
        LEntry 5 None C_GRPREF (LV_string (Some (1, ''1'')))]"

section \<open>Properties\<close>

declare table_recursive_get.simps [simp del]

lemma table_add_of_list: "table_add (of_list xs) e = ret (of_list (xs @ [e]))"
  by (cases xs) (auto simp: of_list_def entry_isolate_def)

lemma table_join_of_list: "table_join (of_list xs) (of_list ys) = of_list (xs @ ys)"
  by (cases xs; cases ys) (auto simp: of_list_def)

lemma rbind_ret [simp]: "rbind (ret x) f = f x"
  by (auto simp: rbind_def ret_def split: sum.splits)

lemma rbind_ret2 [simp]: "rbind m ret = m"
  by (auto simp: rbind_def ret_def split: sum.splits)

lemma value_table_ok: "holds_table e \<Longrightarrow> value_table e = ret (Some (nested e))"
  by (cases e rule: nested.cases) auto



lemma of_list_Nil [simp]: "of_list [] = None"
  by (simp add: of_list_def)

lemma trg_loop_spec:
  "table_ok es \<Longrightarrow>
   table_recursive_get_loop cmp nz i t es (of_list acc) =
     ret (of_list (acc @ filter (\<lambda>e. STCMP cmp nz e i t) (preorder_by is_recursive es)))"
proof (induction "size_list size es" arbitrary: es acc rule: less_induct)
  case less
  show ?case
  proof (cases es)
    case Nil
    then show ?thesis by simp
  next
    case (Cons e es')
    let ?m = "\<lambda>e. STCMP cmp nz e i t"
    let ?acc1 = "acc @ filter ?m [e]"
    have ok': "table_ok es'" using less.prems Cons by simp
    have step1: "(if ?m e then table_add (of_list acc) e else ret (of_list acc)) = ret (of_list ?acc1)"
      by (simp add: table_add_of_list)
    let ?sub = "if is_recursive (e_type e) then filter ?m (preorder_by is_recursive (nested e)) else []"
    have step2: "(if is_recursive (e_type e)
             then rbind (value_table e)
                    (\<lambda>tb. rbind (table_recursive_get cmp nz tb i t)
                       (\<lambda>r. ret (table_join (of_list ?acc1) r)))
             else ret (of_list ?acc1)) = ret (of_list (?acc1 @ ?sub))"
    proof (cases "is_recursive (e_type e)")
      case True
      then have h: "holds_table e" and okn: "table_ok (nested e)"
        using less.prems Cons by simp_all
      have "size_list size (nested e) < size_list size es"
        using nested_size [of e] Cons by simp
      from less.hyps [OF this okn, of "[]"]
      have "table_recursive_get cmp nz (Some (nested e)) i t = ret (of_list (filter ?m (preorder_by is_recursive (nested e))))"
        by (simp add: table_recursive_get.simps)
      then show ?thesis using True h
        by (simp add: value_table_ok table_join_of_list)
    next
      case False
      then show ?thesis by simp
    qed
    have "size_list size es' < size_list size es" using Cons by simp
    from less.hyps [OF this ok', of "?acc1 @ ?sub"]
    show ?thesis unfolding Cons table_recursive_get_loop.simps step1 rbind_ret step2
      by simp
  qed
qed


lemma trg_spec:
  "table_ok es \<Longrightarrow>
   table_recursive_get cmp nz (Some es) i t =
     ret (of_list (filter (\<lambda>e. STCMP cmp nz e i t) (preorder_by is_recursive es)))"
  using trg_loop_spec [of es cmp nz i t "[]"] by (simp add: table_recursive_get.simps)

lemma tpg_loop_spec:
  "table_ok es \<Longrightarrow>
   table_path_get_loop cmp nz (Some p) t es (of_list acc) =
     ret (of_list (acc @ path_matches cmp nz es p t))"
proof (induction "size_list size es" arbitrary: es acc p rule: less_induct)
  case less
  show ?case
  proof (cases es)
    case Nil
    obtain i nx where "p = Path i nx" by (cases p)
    then show ?thesis using Nil by (cases nx) simp_all
  next
    case (Cons e es')
    have ok': "table_ok es'" using less.prems Cons by simp
    have lt': "size_list size es' < size_list size es" using Cons by simp
    have ltn: "size_list size (nested e) < size_list size es"
      using nested_size [of e] Cons by simp
    have rec: "is_recursive (e_type e) \<Longrightarrow> holds_table e \<and> table_ok (nested e)"
      using less.prems Cons by simp
    obtain i nx where p: "p = Path i nx" by (cases p)
    show ?thesis
    proof (cases nx)
      case None
      let ?m = "\<lambda>e. STCMP cmp nz e i t"
      let ?c = "(if ?m e then [e] else []) @
        (if is_recursive (e_type e)
         then filter ?m (preorder_by is_recursive (nested e)) else [])"
      have pm: "path_matches cmp nz es p t = ?c @ path_matches cmp nz es' p t"
        using Cons p None by simp
      have body: "rbind (if ?m e then table_add (of_list acc) e else ret (of_list acc))
                         (\<lambda>out1.
                            if is_recursive (e_type e)
                            then rbind (value_table e)
                                   (\<lambda>tb. rbind (table_recursive_get cmp nz tb i t)
                                      (\<lambda>r. ret (table_join out1 r)))
                            else ret out1) = ret (of_list (acc @ ?c))"
        using rec by (auto simp: table_add_of_list value_table_ok trg_spec table_join_of_list)
      show ?thesis
        unfolding Cons table_path_get_loop.simps
        using body less.hyps [OF lt' ok', of p "acc @ ?c"] pm p None Cons
        by simp
    next
      case (Some q)
      let ?c = "if is_recursive (e_type e) \<and> (\<not> named e \<or> SCMP cmp e i)
        then path_matches cmp nz (nested e) q t else []"
      have pm: "path_matches cmp nz es p t = ?c @ path_matches cmp nz es' p t"
        using Cons p Some by simp
      have sub: "is_recursive (e_type e) \<Longrightarrow>
        table_path_get cmp nz (Some (nested e)) (Some q) t = ret (of_list (path_matches cmp nz (nested e) q t))"
      proof -
        assume "is_recursive (e_type e)"
        with rec have okn: "table_ok (nested e)" by simp
        show ?thesis
        proof (cases "nested e")
          case Nil
          obtain j ny where "q = Path j ny" by (cases q)
          then show ?thesis using Nil by (cases ny) simp_all
        next
          case (Cons a list)
          then show ?thesis using less.hyps [OF ltn okn, of q "[]"] by simp
        qed
      qed
      have body: "(if is_recursive (e_type e) \<and> (\<not> named e \<or> SCMP cmp e i)
                       then rbind (value_table e)
                              (\<lambda>tb. rbind (path_next (Some p))
                                 (\<lambda>nx. rbind (table_path_get cmp nz tb nx t)
                                    (\<lambda>r. ret (table_join (of_list acc) r))))
                       else ret (of_list acc)) = ret (of_list (acc @ ?c))"
        using rec sub p Some by (auto simp: value_table_ok table_join_of_list)
      show ?thesis
        unfolding Cons table_path_get_loop.simps
        using body less.hyps [OF lt' ok', of p "acc @ ?c"] pm p Some Cons
        by simp
    qed
  qed
qed


declare table_path_get.simps [simp del]

lemma rbind_Inr:
  "rbind m f = Inr (y, l) \<Longrightarrow> \<exists>x l1 l2. m = Inr (x, l1) \<and> f x = Inr (y, l2) \<and> l = l1 @ l2"
  by (auto simp: rbind_def split: sum.splits prod.splits)

lemma ret_Inr: "ret x = Inr (y, l) \<longleftrightarrow> y = x \<and> l = []"
  by (auto simp: ret_def)

lemma STCMP_id: "STCMP cmp nz e i t \<Longrightarrow> e_id e \<noteq> None"
  by (auto simp: STCMP_def split: option.splits)

lemma table_add_ids:
  "e_id e \<noteq> None \<Longrightarrow> ids_set out \<Longrightarrow> table_add out e = Inr (out', l) \<Longrightarrow> ids_set out'"
  by (cases "(out, e)" rule: table_add.cases)
     (auto simp: ids_set_def ret_def say_def entry_isolate_def)

lemma table_join_ids: "ids_set a \<Longrightarrow> ids_set b \<Longrightarrow> ids_set (table_join a b)"
  by (cases "(a, b)" rule: table_join.cases)
     (auto simp: ids_set_def split: option.splits list.splits)

lemma cond_add_ids:
  "ids_set out \<Longrightarrow>
   (if STCMP cmp nz e i t then table_add out e else ret out) = Inr (out1, l) \<Longrightarrow> ids_set out1"
  by (auto simp: ret_Inr split: if_splits dest: table_add_ids [OF STCMP_id])

lemma tg_loop_ids:
  "ids_set out \<Longrightarrow> table_get_loop cmp nz i t es out = Inr (out', l) \<Longrightarrow> ids_set out'"
proof (induction es arbitrary: out l)
  case Nil
  then show ?case by (simp add: ret_Inr)
next
  case (Cons e es)
  from Cons.prems(2) obtain out1 l1 l2 where
    a: "(if STCMP cmp nz e i t then table_add out e else ret out) = Inr (out1, l1)"
    and b: "table_get_loop cmp nz i t es out1 = Inr (out', l2)"
    by (auto dest!: rbind_Inr)
  from cond_add_ids [OF Cons.prems(1) a] b show ?case by (rule Cons.IH)
qed

lemma ids_set_None [simp]: "ids_set None"
  by (simp add: ids_set_def)

lemma trg_loop_ids:
  "ids_set out \<Longrightarrow> table_recursive_get_loop cmp nz i t es out = Inr (out', l) \<Longrightarrow> ids_set out'"
proof (induction "size_list size es" arbitrary: es out out' l rule: less_induct)
  case less
  show ?case
  proof (cases es)
    case Nil
    then show ?thesis using less.prems by (simp add: ret_Inr)
  next
    case (Cons e es')
    from less.prems(2) [unfolded Cons table_recursive_get_loop.simps]
    obtain out1 l1 out2 l2 l3 where
      a: "(if STCMP cmp nz e i t then table_add out e else ret out) = Inr (out1, l1)"
      and b: "(if is_recursive (e_type e)
             then rbind (value_table e)
                    (\<lambda>tb. rbind (table_recursive_get cmp nz tb i t)
                       (\<lambda>r. ret (table_join out1 r)))
             else ret out1) = Inr (out2, l2)"
      and c: "table_recursive_get_loop cmp nz i t es' out2 = Inr (out', l3)"
      by (auto dest!: rbind_Inr)
    have i1: "ids_set out1" using cond_add_ids [OF less.prems(1) a] .
    have i2: "ids_set out2"
    proof (cases "is_recursive (e_type e)")
      case True
      with b obtain tb la r lb where
        v: "value_table e = Inr (tb, la)"
        and g: "table_recursive_get cmp nz tb i t = Inr (r, lb)"
        and o: "out2 = table_join out1 r"
        by (auto dest!: rbind_Inr simp: ret_Inr)
      from g obtain ns where tb: "tb = Some ns"
        and gl: "table_recursive_get_loop cmp nz i t ns None = Inr (r, lb)"
        by (auto simp: table_recursive_get.simps split: option.splits)
      have "size_list size ns < size_list size es"
        using value_table_size [OF v] tb Cons by simp
      from less.hyps [OF this _ gl] have "ids_set r" by simp
      with i1 o show ?thesis by (simp add: table_join_ids)
    next
      case False
      with b i1 show ?thesis by (simp add: ret_Inr)
    qed
    have "size_list size es' < size_list size es" using Cons by simp
    from less.hyps [OF this i2 c] show ?thesis .
  qed
qed

lemma tpg_loop_ids:
  "ids_set out \<Longrightarrow> table_path_get_loop cmp nz path t es out = Inr (out', l) \<Longrightarrow> ids_set out'"
proof (induction "size_list size es" arbitrary: es out out' l path rule: less_induct)
  case less
  show ?case
  proof (cases es)
    case Nil
    then show ?thesis using less.prems by (simp add: ret_Inr)
  next
    case (Cons e es')
    from less.prems(2) [unfolded Cons table_path_get_loop.simps]
    obtain base l0 out2 l2 l3 where
      pb: "path_is_base path = Inr (base, l0)"
      and b: "(if base
             then rbind (path_id path)
                    (\<lambda>pid.
                       rbind (if STCMP cmp nz e pid t then table_add out e else ret out)
                         (\<lambda>out1.
                            if is_recursive (e_type e)
                            then rbind (value_table e)
                                   (\<lambda>tb. rbind (table_recursive_get cmp nz tb pid t)
                                      (\<lambda>r. ret (table_join out1 r)))
                            else ret out1))
             else rbind (path_id path)
                    (\<lambda>pid.
                       if is_recursive (e_type e) \<and> (\<not> named e \<or> SCMP cmp e pid)
                       then rbind (value_table e)
                              (\<lambda>tb. rbind (path_next path)
                                 (\<lambda>nx. rbind (table_path_get cmp nz tb nx t)
                                    (\<lambda>r. ret (table_join out r))))
                       else ret out)) = Inr (out2, l2)"
      and c: "table_path_get_loop cmp nz path t es' out2 = Inr (out', l3)"
      by (auto dest!: rbind_Inr)
    have i2: "ids_set out2"
    proof (cases base)
      case True
      with b obtain pid la out1 lb lc where
        a: "(if STCMP cmp nz e pid t then table_add out e else ret out) = Inr (out1, lb)"
        and d: "(if is_recursive (e_type e)
                            then rbind (value_table e)
                                   (\<lambda>tb. rbind (table_recursive_get cmp nz tb pid t)
                                      (\<lambda>r. ret (table_join out1 r)))
                            else ret out1) = Inr (out2, lc)"
        by (auto dest!: rbind_Inr)
      have i1: "ids_set out1" using cond_add_ids [OF less.prems(1) a] .
      show ?thesis
      proof (cases "is_recursive (e_type e)")
        case True
        with d obtain tb la r lb where
          g: "table_recursive_get cmp nz tb pid t = Inr (r, lb)"
          and o: "out2 = table_join out1 r"
          by (auto dest!: rbind_Inr simp: ret_Inr)
        from g obtain ns where
          gl: "table_recursive_get_loop cmp nz pid t ns None = Inr (r, lb)"
          by (auto simp: table_recursive_get.simps split: option.splits)
        from trg_loop_ids [OF _ gl] have "ids_set r" by simp
        with i1 o show ?thesis by (simp add: table_join_ids)
      next
        case False
        with d i1 show ?thesis by (simp add: ret_Inr)
      qed
    next
      case False
      with b obtain pid ld where
        d: "(if is_recursive (e_type e) \<and> (\<not> named e \<or> SCMP cmp e pid)
                       then rbind (value_table e)
                              (\<lambda>tb. rbind (path_next path)
                                 (\<lambda>nx. rbind (table_path_get cmp nz tb nx t)
                                    (\<lambda>r. ret (table_join out r))))
                       else ret out) = Inr (out2, ld)"
        by (auto dest!: rbind_Inr)
      show ?thesis
      proof (cases "is_recursive (e_type e) \<and> (\<not> named e \<or> SCMP cmp e pid)")
        case True
        with d obtain tb la nx lb r lc where
          v: "value_table e = Inr (tb, la)"
          and g: "table_path_get cmp nz tb nx t = Inr (r, lc)"
          and o: "out2 = table_join out r"
          by (auto dest!: rbind_Inr simp: ret_Inr)
        have "ids_set r"
        proof (cases tb)
          case None
          with g show ?thesis by (simp add: table_path_get.simps ret_Inr)
        next
          case (Some ns)
          show ?thesis
          proof (cases ns)
            case Nil
            with g Some show ?thesis by (simp add: table_path_get.simps ret_Inr ids_set_def)
          next
            case (Cons a list)
            with g Some have gl: "table_path_get_loop cmp nz nx t ns None = Inr (r, lc)"
              by (simp add: table_path_get.simps)
            have "size_list size ns < size_list size es"
              using value_table_size [OF v] Some \<open>es = e # es'\<close> by simp
            from less.hyps [OF this _ gl] show ?thesis by simp
          qed
        qed
        with less.prems(1) o show ?thesis by (simp add: table_join_ids)
      next
        case False
        with d less.prems(1) show ?thesis by (auto simp: ret_Inr split: if_splits)
      qed
    qed
    have "size_list size es' < size_list size es" using Cons by simp
    from less.hyps [OF this i2 c] show ?thesis .
  qed
qed

lemma STCMP_null [simp]: "STCMP cmp nz e None t = False"
  by (simp add: STCMP_def split: option.splits)

lemma STCMP_match: "nz t \<Longrightarrow> STCMP cmp nz e (Some b) t = id_type_match cmp b t e"
  by (simp add: STCMP_def id_type_match_def split: option.splits)

lemma tg_loop_null: "table_get_loop cmp nz None t es out = ret out"
  by (induction es) simp_all

lemma table_ok_nested:
  "table_ok es \<Longrightarrow> e \<in> set es \<Longrightarrow> is_recursive (e_type e) \<Longrightarrow> holds_table e \<and> table_ok (nested e)"
  by (induction es) (auto split: if_splits)

lemma entries_of_list [simp]: "entries (of_list xs) = xs"
  by (simp add: of_list_def)

lemma found_ret [simp]: "found (ret tb) = entries tb"
  by (simp add: ret_def)

lemma tpg_spec:
  "table_ok es \<Longrightarrow>
   table_path_get cmp nz (Some es) (Some p) t = ret (of_list (path_matches cmp nz es p t))"
proof (cases es)
  case Nil
  obtain i nx where "p = Path i nx" by (cases p)
  then show ?thesis using Nil by (cases nx) (simp_all add: table_path_get.simps)
next
  case (Cons e es')
  assume "table_ok es"
  from tpg_loop_spec [OF this, of cmp nz p t "[]"] Cons
  show ?thesis by (simp add: table_path_get.simps)
qed

subsection \<open>Recursive lookup by id and type\<close>

text \<open>
  C2, as the code has it. On a table whose recursive entries hold tables, and for a type
  tag that is not 0, \<open>table_recursive_get\<close> returns the entries of the whole subtree
  whose id and type both match, in pre-order, where the subtree is reached by descending
  into the nested table of every entry of type path, composon or nest (the three types
  of \<open>is_recursive\<close>); the result is NULL when there is none.
\<close>

theorem table_recursive_get_preorder:
  "table_ok es \<Longrightarrow> nz t \<Longrightarrow>
   table_recursive_get cmp nz (Some es) (Some b) t =
     ret (of_list (filter (id_type_match cmp b t) (preorder_by is_recursive es)))"
proof -
  assume ok: "table_ok es" and nz: "nz t"
  have "(\<lambda>e. STCMP cmp nz e (Some b) t) = id_type_match cmp b t"
    using nz by (auto simp: STCMP_match)
  with trg_spec [OF ok, of cmp nz "Some b" t] show ?thesis by simp
qed

theorem table_recursive_get_preorder_witness:
  "table_ok ex_table \<and> nz_all C_MANIFOLD \<and>
   table_recursive_get cmp_name nz_all (Some ex_table) (Some (Id (Some ''f''))) C_MANIFOLD =
     ret (Some [man ''f'' ''first'', man ''f'' ''second'', man ''f'' ''third''])"
proof -
  have ok: "table_ok ex_table"
    by (simp add: ex_table_def man_def is_recursive_def)
  have nz: "nz_all C_MANIFOLD"
    by (simp add: nz_all_def)
  show ?thesis
    using ok nz table_recursive_get_preorder [of ex_table nz_all C_MANIFOLD cmp_name "Id (Some ''f'')"]
    by (simp add: ex_table_def man_def is_recursive_def id_type_match_def cmp_name_def
        of_list_def)
qed

text \<open>
  C2 as the claim states it, with the four recursive types of the specification, fails:
  the nested table of a deref entry is not searched. The manifold \<open>x\<close> inside the deref
  entry of \<open>ex_deref\<close> is in the pre-order of the four types and matches, and the lookup
  returns NULL.
\<close>

theorem table_recursive_get_deref_counterexample:
  "table_recursive_get cmp_name nz_all (Some ex_deref) (Some (Id (Some ''x''))) C_MANIFOLD
     = ret None \<and>
   filter (id_type_match cmp_name (Id (Some ''x'')) C_MANIFOLD)
     (preorder_by four_recursive ex_deref) = [man ''x'' ''inner'']"
  by (simp add: ex_deref_def man_def table_recursive_get.simps is_recursive_def STCMP_def
      cmp_name_def nz_all_def id_type_match_def four_recursive_def)

subsection \<open>Path-qualified lookup\<close>

text \<open>
  C1, as the code has it. A recursive type is here one of the three types of
  \<open>is_recursive\<close>: path, composon, nest. On a table whose entries of these types hold
  tables: when the path is at its base segment \<open>i\<close>, \<open>table_path_get\<close> returns, entry
  by entry, the entry itself if its id and type match \<open>i\<close> and \<open>t\<close>, followed by
  everything \<open>table_recursive_get\<close> finds for \<open>i\<close> and \<open>t\<close> in the nested table of the
  entry if the entry is a path, a composon or a nest;
  when the path has a rest \<open>q\<close>, it returns, entry by entry, what \<open>table_path_get\<close> finds
  for \<open>q\<close> in the nested table of the entry, for exactly the entries that are a path, a
  composon or a nest and are anonymous or have an id matching \<open>i\<close>.
\<close>

theorem table_path_get_base_and_descent:
  "table_ok es \<Longrightarrow>
   table_path_get cmp nz (Some es) (Some (Path i None)) t =
     ret (of_list (concat (map (\<lambda>e.
        filter (\<lambda>x. STCMP cmp nz x i t) [e] @
        (if is_recursive (e_type e)
         then found (table_recursive_get cmp nz (Some (nested e)) i t)
         else [])) es)))
   \<and>
   table_path_get cmp nz (Some es) (Some (Path i (Some q))) t =
     ret (of_list (concat (map (\<lambda>e.
        if is_recursive (e_type e) \<and> (\<not> named e \<or> SCMP cmp e i)
        then found (table_path_get cmp nz (Some (nested e)) (Some q) t)
        else []) es)))"
proof -
  assume ok: "table_ok es"
  have base: "map (\<lambda>e.
        filter (\<lambda>x. STCMP cmp nz x i t) [e] @
        (if is_recursive (e_type e)
         then found (table_recursive_get cmp nz (Some (nested e)) i t)
         else [])) es =
      map (\<lambda>e.
        (if STCMP cmp nz e i t then [e] else []) @
        (if is_recursive (e_type e)
         then filter (\<lambda>x. STCMP cmp nz x i t) (preorder_by is_recursive (nested e))
         else [])) es"
    by (rule map_cong) (auto simp: trg_spec dest: table_ok_nested [OF ok])
  have desc: "map (\<lambda>e.
        if is_recursive (e_type e) \<and> (\<not> named e \<or> SCMP cmp e i)
        then found (table_path_get cmp nz (Some (nested e)) (Some q) t)
        else []) es =
      map (\<lambda>e.
        if is_recursive (e_type e) \<and> (\<not> named e \<or> SCMP cmp e i)
        then path_matches cmp nz (nested e) q t
        else []) es"
    by (rule map_cong) (auto simp: tpg_spec dest: table_ok_nested [OF ok])
  show ?thesis
    unfolding base desc using tpg_spec [OF ok, of cmp nz _ t] by simp
qed

theorem table_path_get_base_and_descent_witness:
  "table_ok ex_table \<and>
   table_path_get cmp_name nz_all (Some ex_table)
     (Some (Path (Some (Id (Some ''f''))) None)) C_MANIFOLD =
     ret (Some [man ''f'' ''first'', man ''f'' ''second'', man ''f'' ''third'']) \<and>
   table_path_get cmp_name nz_all (Some ex_table)
     (Some (Path (Some (Id (Some ''a''))) (Some (Path (Some (Id (Some ''b''))) (Some
        (Path (Some (Id (Some ''f''))) None)))))) C_MANIFOLD =
     ret (Some [man ''f'' ''first'', man ''f'' ''second''])"
proof -
  have ok: "table_ok ex_table"
    by (simp add: ex_table_def man_def is_recursive_def)
  have rg: "\<And>es i. table_recursive_get cmp_name nz_all (Some es) i C_MANIFOLD =
      table_recursive_get_loop cmp_name nz_all i C_MANIFOLD es None"
    by (simp add: table_recursive_get.simps)
  show ?thesis
    using ok
      table_path_get_base_and_descent [OF ok, of cmp_name nz_all "Some (Id (Some ''f''))"
        C_MANIFOLD "Path (Some (Id (Some ''b''))) (Some (Path (Some (Id (Some ''f''))) None))"]
      table_path_get_base_and_descent [OF ok, of cmp_name nz_all "Some (Id (Some ''a''))"
        C_MANIFOLD "Path (Some (Id (Some ''b''))) (Some (Path (Some (Id (Some ''f''))) None))"]
    by (simp add: ex_table_def man_def is_recursive_def cmp_name_def nz_all_def
        of_list_def STCMP_def SCMP_def named_def rg table_path_get.simps entry_isolate_def)
qed

text \<open>
  C1 as the claim states it, with the four recursive types of the specification, fails:
  at the base segment the nested table of a deref entry is not searched. For the path
  \<open>x\<close> on \<open>ex_deref\<close> the specification asks for the manifold \<open>x\<close> inside the deref
  entry, and the lookup returns NULL.
\<close>

theorem table_path_get_deref_counterexample:
  "table_path_get cmp_name nz_all (Some ex_deref)
     (Some (Path (Some (Id (Some ''x''))) None)) C_MANIFOLD = ret None \<and>
   base_matches_four cmp_name nz_all ex_deref (Some (Id (Some ''x''))) C_MANIFOLD
     = [man ''x'' ''inner'']"
  by (simp add: ex_deref_def man_def table_path_get.simps is_recursive_def STCMP_def
      cmp_name_def nz_all_def base_matches_four_def four_recursive_def)

subsection \<open>Entries without an id\<close>

text \<open>
  C10. With a NULL id, \<open>table_get\<close> (on any table that is not NULL) and
  \<open>table_recursive_get\<close> (on a table whose recursive entries hold tables) return NULL;
  and whatever id, type or path is looked up, no entry in the result of \<open>table_get\<close>,
  \<open>table_recursive_get\<close> or \<open>table_path_get\<close> has a NULL id.
\<close>

theorem null_id_never_found:
  "table_get cmp nz (Some es) None t = ret None \<and>
   (table_ok es \<longrightarrow> table_recursive_get cmp nz (Some es) None t = ret None) \<and>
   (table_get cmp nz tb i t = Inr (r, l) \<longrightarrow> (\<forall>e \<in> set (entries r). e_id e \<noteq> None)) \<and>
   (table_recursive_get cmp nz tb i t = Inr (r, l) \<longrightarrow> (\<forall>e \<in> set (entries r). e_id e \<noteq> None)) \<and>
   (table_path_get cmp nz tb path t = Inr (r, l) \<longrightarrow> (\<forall>e \<in> set (entries r). e_id e \<noteq> None))"
proof (intro conjI impI)
  show "table_get cmp nz (Some es) None t = ret None"
    by (simp add: table_get_def tg_loop_null)
next
  assume "table_ok es"
  from trg_spec [OF this, of cmp nz None t]
  show "table_recursive_get cmp nz (Some es) None t = ret None" by simp
next
  assume "table_get cmp nz tb i t = Inr (r, l)"
  then obtain xs where "table_get_loop cmp nz i t xs None = Inr (r, l)"
    by (auto simp: table_get_def split: option.splits)
  from tg_loop_ids [OF _ this] show "\<forall>e \<in> set (entries r). e_id e \<noteq> None"
    by (simp add: ids_set_def list_all_iff)
next
  assume "table_recursive_get cmp nz tb i t = Inr (r, l)"
  then obtain xs where "table_recursive_get_loop cmp nz i t xs None = Inr (r, l)"
    by (auto simp: table_recursive_get.simps split: option.splits)
  from trg_loop_ids [OF _ this] show "\<forall>e \<in> set (entries r). e_id e \<noteq> None"
    by (simp add: ids_set_def list_all_iff)
next
  assume a: "table_path_get cmp nz tb path t = Inr (r, l)"
  have "ids_set r"
  proof (cases "\<exists>x xs. tb = Some (x # xs)")
    case True
    then obtain x xs where "tb = Some (x # xs)" by blast
    with a have "table_path_get_loop cmp nz path t (x # xs) None = Inr (r, l)"
      by (simp add: table_path_get.simps)
    from tpg_loop_ids [OF _ this] show ?thesis by simp
  next
    case False
    with a have "r = None"
      by (auto simp: table_path_get.simps ret_Inr split: option.splits list.splits)
    then show ?thesis by simp
  qed
  then show "\<forall>e \<in> set (entries r). e_id e \<noteq> None"
    by (simp add: ids_set_def list_all_iff)
qed

text \<open>The anonymous composon of \<open>ex_anon\<close> has the type looked for and is not returned.\<close>

theorem null_id_never_found_witness:
  "table_ok ex_anon \<and>
   table_get cmp_name nz_all (Some ex_anon) None C_COMPOSON = ret None \<and>
   table_recursive_get cmp_name nz_all (Some ex_anon) None C_COMPOSON = ret None \<and>
   table_get cmp_name nz_all (Some ex_anon) (Some (Id (Some ''g''))) C_COMPOSON
     = Inr (Some [ex_named], []) \<and>
   table_recursive_get cmp_name nz_all (Some ex_anon) (Some (Id (Some ''g''))) C_COMPOSON
     = Inr (Some [ex_named], []) \<and>
   table_path_get cmp_name nz_all (Some ex_anon) (Some (Path (Some (Id (Some ''g''))) None))
       C_COMPOSON
     = Inr (Some [ex_named], []) \<and>
   e_id ex_named \<noteq> None"
proof -
  have ok: "table_ok ex_anon"
    by (simp add: ex_anon_def ex_named_def man_def is_recursive_def)
  have g: "table_get cmp_name nz_all (Some ex_anon) (Some (Id (Some ''g''))) C_COMPOSON
     = Inr (Some [ex_named], [])"
    by (simp add: ex_anon_def ex_named_def man_def table_get_def STCMP_def cmp_name_def
        nz_all_def entry_isolate_def) (simp add: ret_def)
  have rg: "table_recursive_get cmp_name nz_all (Some ex_anon) (Some (Id (Some ''g''))) C_COMPOSON
     = Inr (Some [ex_named], [])"
    by (simp add: ex_anon_def ex_named_def man_def table_recursive_get.simps STCMP_def
        cmp_name_def nz_all_def is_recursive_def entry_isolate_def) (simp add: ret_def)
  have pg: "table_path_get cmp_name nz_all (Some ex_anon)
       (Some (Path (Some (Id (Some ''g''))) None)) C_COMPOSON
     = Inr (Some [ex_named], [])"
    by (simp add: ex_anon_def ex_named_def man_def table_recursive_get.simps STCMP_def
        table_path_get.simps cmp_name_def nz_all_def is_recursive_def entry_isolate_def)
       (simp add: ret_def)
  show ?thesis
    using ok g rg pg
      null_id_never_found [of cmp_name nz_all ex_anon C_COMPOSON "Some ex_anon"
        "Some (Id (Some ''g''))" "Some [ex_named]" "[]"
        "Some (Path (Some (Id (Some ''g''))) None)"]
    by simp
qed

declare table_composon_io.simps [simp del]

lemma rbind_Inr_Inr: "f x = Inr (y, l') \<Longrightarrow> rbind (Inr (x, l)) f = Inr (y, l @ l')"
  by (simp add: rbind_def)

lemma rbind_Inr_eq:
  "rbind (Inr (x, l)) f = (case f x of Inl e \<Rightarrow> Inl e | Inr (y, l') \<Rightarrow> Inr (y, l @ l'))"
  by (simp add: rbind_def)

lemma printed_ret [simp]: "printed (ret x) = []"
  by (simp add: ret_def)

lemma wf_table_nested:
  "wf_table es \<Longrightarrow> e \<in> set es \<Longrightarrow> four_recursive (e_type e) \<Longrightarrow> holds_table e \<and> wf_table (nested e)"
  by (induction es) (auto split: if_splits)

lemma table_tail_nested: "table_tail (Some es) = ret (innermost es)"
  by (cases es) (simp_all add: innermost_def)

lemma table_head_nested: "table_head (Some es) = ret (outermost es)"
  by (cases es) (simp_all add: outermost_def)

lemma pick_size:
  "(if is_input then innermost es else outermost es) = Some ne \<Longrightarrow> ne \<in> set es"
  by (cases es) (auto simp: innermost_def outermost_def split: if_splits)

lemma size_in_list: "x \<in> set xs \<Longrightarrow> size x < size_list size xs"
  by (induction xs) (auto simp: less_Suc_eq trans_less_add2)

lemma io_loop_spec:
  "wf_table es \<Longrightarrow>
   table_composon_io_loop is_input es (of_list acc) =
     Inr (of_list (acc @ concat (map (io_part is_input) es)),
          concat (map (io_said is_input) es))"
proof (induction "size_list size es" arbitrary: es acc rule: less_induct)
  case less
  show ?case
  proof (cases es)
    case Nil
    then show ?thesis by (simp add: ret_def)
  next
    case (Cons e es')
    have wf': "wf_table es'" using less.prems Cons by simp
    have lt': "size_list size es' < size_list size es" using Cons by simp
    let ?step = "if e_type e = C_MANIFOLD \<or> e_type e = C_POSITIONAL \<or> e_type e = C_DEREF
        then table_add (of_list acc) e
        else if e_type e = T_PATH \<or> e_type e = C_NEST
        then rbind (value_table e)
               (\<lambda>tb. rbind (if is_input then table_tail tb else table_head tb)
                  (\<lambda>ne. rbind (table_composon_io ne is_input)
                     (\<lambda>r. ret (table_join (of_list acc) r))))
        else if e_type e = C_GRPREF
        then say Unresolved_grpref (of_list acc)
        else say Illegal_type (of_list acc)"
    have step: "?step = Inr (of_list (acc @ io_part is_input e), io_said is_input e)"
    proof (cases "e_type e = T_PATH \<or> e_type e = C_NEST")
      case False
      then show ?thesis
        by (auto simp: io_part_def io_said_def table_add_of_list ret_def say_def)
    next
      case True
      then have four: "four_recursive (e_type e)" by (auto simp: four_recursive_def)
      with less.prems Cons have h: "holds_table e" and wfn: "wf_table (nested e)" by simp_all
      let ?ne = "if is_input then innermost (nested e) else outermost (nested e)"
      have call: "\<exists>r l. table_composon_io ?ne is_input = Inr (of_list r, l)"
      proof (cases ?ne)
        case None
        then show ?thesis by (auto simp: table_composon_io.simps ret_def intro: exI [of _ "[]"])
      next
        case (Some x)
        then have xin: "x \<in> set (nested e)" by (rule pick_size)
        show ?thesis
        proof (cases "e_type x = C_COMPOSON \<or> e_type x = C_NEST")
          case False
          then show ?thesis using Some
            by (auto simp: table_composon_io.simps TCMP_def say_def intro: exI [of _ "[]"])
        next
          case True
          then have "four_recursive (e_type x)" by (auto simp: four_recursive_def)
          from wf_table_nested [OF wfn xin this]
          have hx: "holds_table x" and wfx: "wf_table (nested x)" by simp_all
          have "size_list size (nested x) < size x" by (rule nested_size)
          also have "\<dots> < size_list size (nested e)" using xin by (rule size_in_list)
          also have "\<dots> < size e" by (rule nested_size)
          also have "\<dots> < size_list size es" using Cons by simp
          finally have "size_list size (nested x) < size_list size es" .
          from less.hyps [OF this wfx, of "[]"] True Some hx show ?thesis
            by (auto simp: table_composon_io.simps TCMP_def value_table_ok)
        qed
      qed
      then obtain r l where c: "table_composon_io ?ne is_input = Inr (of_list r, l)" by blast
      have "?step = Inr (of_list (acc @ r), l)"
        using True h c
        by (auto simp: value_table_ok table_tail_nested table_head_nested rbind_Inr_eq
            table_join_of_list ret_def)
      moreover have "io_part is_input e = r" "io_said is_input e = l"
        using True c by (auto simp: io_part_def io_said_def)
      ultimately show ?thesis by simp
    qed
    show ?thesis
      unfolding Cons table_composon_io_loop.simps step
      using less.hyps [OF lt' wf', of "acc @ io_part is_input e"]
      by (simp add: rbind_Inr_eq)
  qed
qed

subsection \<open>Inputs and outputs of a composon\<close>

text \<open>
  C4. For a composon or nest entry whose table follows the data model,
  \<open>table_composon_io\<close> returns (it does not stop the process) the concatenation, over
  the nested entries in order, of: the entry itself for a manifold, positional or deref
  entry; for a path or nest entry, the result of the extraction on the last entry of its
  nested table for inputs, on the first entry for outputs; nothing for any other entry.
  The lines printed are, in the same order, those of the recursive extractions, one
  \<open>Unresolved_grpref\<close> for each group reference, and one \<open>Illegal_type\<close> for each entry
  of another type.
\<close>

theorem table_composon_io_parts:
  "e_type en = C_COMPOSON \<or> e_type en = C_NEST \<Longrightarrow> wf_table [en] \<Longrightarrow>
   table_composon_io (Some en) is_input =
     Inr (of_list (concat (map (\<lambda>e.
            if e_type e = C_MANIFOLD \<or> e_type e = C_POSITIONAL \<or> e_type e = C_DEREF
            then [e]
            else if e_type e = T_PATH \<or> e_type e = C_NEST
            then found (table_composon_io
                   (if is_input then innermost (nested e) else outermost (nested e)) is_input)
            else []) (nested en))),
          concat (map (\<lambda>e.
            if e_type e = C_MANIFOLD \<or> e_type e = C_POSITIONAL \<or> e_type e = C_DEREF
            then []
            else if e_type e = T_PATH \<or> e_type e = C_NEST
            then printed (table_composon_io
                   (if is_input then innermost (nested e) else outermost (nested e)) is_input)
            else if e_type e = C_GRPREF then [Unresolved_grpref]
            else [Illegal_type]) (nested en)))"
proof -
  assume ty: "e_type en = C_COMPOSON \<or> e_type en = C_NEST" and wf: "wf_table [en]"
  from ty have "four_recursive (e_type en)" by (auto simp: four_recursive_def)
  with wf have h: "holds_table en" and wfn: "wf_table (nested en)" by simp_all
  have "table_composon_io (Some en) is_input =
      table_composon_io_loop is_input (nested en) None"
    using ty h by (auto simp: table_composon_io.simps TCMP_def value_table_ok)
  with io_loop_spec [OF wfn, of is_input "[]"] show ?thesis
    by (simp add: io_part_def [abs_def] io_said_def [abs_def])
qed

theorem table_composon_io_parts_witness:
  "(e_type ex_composon = C_COMPOSON \<or> e_type ex_composon = C_NEST) \<and> wf_table [ex_composon] \<and>
   table_composon_io (Some ex_composon) True =
     Inr (Some [man ''f'' ''1'', ex_pos, ex_drf, man ''h'' ''3''],
          [Unresolved_grpref]) \<and>
   table_composon_io (Some ex_composon) False =
     Inr (Some [man ''f'' ''1'', ex_pos, ex_drf, man ''g'' ''2''],
          [Unresolved_grpref])"
proof -
  have ty: "e_type ex_composon = C_COMPOSON \<or> e_type ex_composon = C_NEST"
    by (simp add: ex_composon_def)
  have wf: "wf_table [ex_composon]"
    by (simp add: ex_composon_def ex_pos_def ex_drf_def ex_nest_def man_def four_recursive_def)
  have sub: "\<And>b. table_composon_io (Some (Entry None C_COMPOSON (V_table (Some [man ''g'' ''2'']))))
      b = ret (Some [man ''g'' ''2''])"
      "\<And>b. table_composon_io (Some (Entry None C_COMPOSON (V_table (Some [man ''h'' ''3'']))))
      b = ret (Some [man ''h'' ''3''])"
    by (simp_all add: table_composon_io.simps TCMP_def man_def entry_isolate_def)
  have i1: "table_composon_io (Some ex_composon) True =
     Inr (Some [man ''f'' ''1'', ex_pos, ex_drf, man ''h'' ''3''], [Unresolved_grpref])"
    unfolding table_composon_io_parts [OF ty wf, of True]
    by (simp add: ex_composon_def ex_pos_def ex_drf_def ex_nest_def innermost_def
        of_list_def sub man_def [of "''f''"])
  have o1: "table_composon_io (Some ex_composon) False =
     Inr (Some [man ''f'' ''1'', ex_pos, ex_drf, man ''g'' ''2''], [Unresolved_grpref])"
    unfolding table_composon_io_parts [OF ty wf, of False]
    by (simp add: ex_composon_def ex_pos_def ex_drf_def ex_nest_def outermost_def
        of_list_def sub man_def [of "''f''"])
  show ?thesis
    by (rule conjI [OF ty conjI [OF wf conjI [OF i1 o1]]])
qed

text \<open>
  C3, as the code has it. On an entry that is neither a composon nor a nest,
  \<open>table_composon_inputs\<close> and \<open>table_composon_outputs\<close> print one error line and return
  NULL; the process goes on.
\<close>

theorem table_composon_io_not_composon:
  "e_type en \<noteq> C_COMPOSON \<Longrightarrow> e_type en \<noteq> C_NEST \<Longrightarrow>
   table_composon_inputs (Some en) = Inr (None, [Err_not_composon]) \<and>
   table_composon_outputs (Some en) = Inr (None, [Err_not_composon])"
  by (simp add: table_composon_inputs_def table_composon_outputs_def
      table_composon_io.simps TCMP_def say_def)

theorem table_composon_io_not_composon_witness:
  "e_type (man ''f'' ''1'') \<noteq> C_COMPOSON \<and> e_type (man ''f'' ''1'') \<noteq> C_NEST \<and>
   table_composon_inputs (Some (man ''f'' ''1'')) = Inr (None, [Err_not_composon]) \<and>
   table_composon_outputs (Some (man ''f'' ''1'')) = Inr (None, [Err_not_composon])"
  using table_composon_io_not_composon [of "man ''f'' ''1''"]
  by (simp add: man_def)

text \<open>
  C3 as the claim states it fails: on the manifold entry \<open>f\<close> the extraction does not
  stop the process, it returns.
\<close>

theorem table_composon_io_not_fatal_counterexample:
  "table_composon_inputs (Some (man ''f'' ''1'')) \<noteq> Inl Exit_failure \<and>
   table_composon_outputs (Some (man ''f'' ''1'')) \<noteq> Inl Exit_failure \<and>
   table_composon_inputs (Some (man ''f'' ''1'')) = Inr (None, [Err_not_composon]) \<and>
   table_composon_outputs (Some (man ''f'' ''1'')) = Inr (None, [Err_not_composon])"
  by (simp add: table_composon_inputs_def table_composon_outputs_def
      table_composon_io.simps TCMP_def say_def man_def)

section \<open>Properties of the node access\<close>

lemma rbind_Inl [simp]: "rbind (Inl e) f = Inl e"
  by (simp add: rbind_def)

subsection \<open>Splitting a couplet\<close>

text \<open>
  C7, as the code has it. For a couplet \<open>c\<close> with the left-hand side \<open>l\<close>: if \<open>l\<close> is a
  qualified path, a label or a name, \<open>ws_split_couplet\<close> returns the one-element
  sequence of \<open>c\<close> itself; if \<open>l\<close> is of any class other than these and the list of
  alternatives, it prints one error line and returns NULL, and the process goes on.
\<close>

theorem ws_split_couplet_singular_or_invalid:
  "g_lhs (Some c) = ret (Some l) \<Longrightarrow>
   (w_cls l = K_PATH \<or> w_cls l = K_LABEL \<or> w_cls l = K_NAME \<longrightarrow>
      ws_split_couplet c = ret (Some [c])) \<and>
   (w_cls l \<noteq> K_LIST \<and> w_cls l \<noteq> K_PATH \<and> w_cls l \<noteq> K_LABEL \<and> w_cls l \<noteq> K_NAME \<longrightarrow>
      ws_split_couplet c = Inr (None, [Err_invalid_lhs]))"
  by (auto simp: ws_split_couplet_def w_isolate_def say_def)

theorem ws_split_couplet_singular_or_invalid_witness:
  "g_lhs (Some (couplet_of (seg ''a''))) = ret (Some (seg ''a'')) \<and>
   w_cls (seg ''a'') = K_LABEL \<and>
   ws_split_couplet (couplet_of (seg ''a'')) = ret (Some [couplet_of (seg ''a'')]) \<and>
   g_lhs (Some (couplet_of ex_wnest)) = ret (Some ex_wnest) \<and>
   w_cls ex_wnest = C_NEST \<and>
   ws_split_couplet (couplet_of ex_wnest) = Inr (None, [Err_invalid_lhs])"
proof -
  have a: "g_lhs (Some (couplet_of (seg ''a''))) = ret (Some (seg ''a''))"
    by (simp add: couplet_of_def)
  have b: "g_lhs (Some (couplet_of ex_wnest)) = ret (Some ex_wnest)"
    by (simp add: couplet_of_def)
  show ?thesis
    using a b
      ws_split_couplet_singular_or_invalid [OF a]
      ws_split_couplet_singular_or_invalid [OF b]
    by (simp add: seg_def ex_wnest_def)
qed

text \<open>
  C7 as the claim states it fails: a couplet whose left-hand side is a nest does not stop
  the process; the call returns NULL after one error line.
\<close>

theorem ws_split_couplet_not_fatal_counterexample:
  "ws_split_couplet (couplet_of ex_wnest) \<noteq> Inl Exit_failure \<and>
   ws_split_couplet (couplet_of ex_wnest) = Inr (None, [Err_invalid_lhs])"
  by (simp add: ws_split_couplet_def couplet_of_def ex_wnest_def say_def)

subsection \<open>Recursion along a path\<close>

text \<open>
  C9. For a couplet \<open>p\<close>: on a nest \<open>w\<close>, \<open>ws_recurse_path\<close> returns its body; on a node
  \<open>w\<close> that is neither a nest nor a qualified path it returns NULL; on a qualified path
  \<open>w\<close> with the remainder \<open>rest\<close>, when the left-hand side of \<open>p\<close> is the sequence
  \<open>segs\<close>, it returns \<open>rest\<close> if \<open>segs\<close> has length 1, and otherwise \<open>rest\<close> if the label
  of the left-hand side of \<open>w\<close> and the label of the left-hand side of \<open>p\<close> compare
  equal, NULL if they do not.
\<close>

theorem ws_recurse_path_rule:
  "get_value_type p = V_COUPLET \<Longrightarrow>
   (w = W C_NEST (WV_ws body) \<longrightarrow> ws_recurse_path lcmp w p = ret body) \<and>
   (w_cls w \<noteq> C_NEST \<and> w_cls w \<noteq> T_PATH \<longrightarrow> ws_recurse_path lcmp w p = ret None) \<and>
   (w = W T_PATH (WV_couplet wl (Some (W rc (WV_ws rest)))) \<and>
    p = W pc (WV_couplet (Some (W plc (WV_ws segs))) pr) \<longrightarrow>
      (ws_length segs = 1 \<longrightarrow> ws_recurse_path lcmp w p = ret rest) \<and>
      (ws_length segs \<noteq> 1 \<and>
       ws_get_label_from_lhs wl = Inr (la, da) \<and>
       ws_get_label_from_lhs (Some (W plc (WV_ws segs))) = Inr (lb, db) \<longrightarrow>
         ws_recurse_path lcmp w p = Inr (if lcmp la lb then rest else None, da @ db)))"
  by (auto simp: ws_recurse_path_def w_assert_type_def ws_cmp_lhs_def rbind_Inr_eq ret_def)

theorem ws_recurse_path_rule_witness:
  "get_value_type (couplet_of (kpath [seg ''a'', seg ''b''])) = V_COUPLET \<and>
   ws_recurse_path lcmp_name ex_wnest (couplet_of (kpath [seg ''a'', seg ''b'']))
     = ret (Some [seg ''b'']) \<and>
   ws_recurse_path lcmp_name (seg ''a'') (couplet_of (kpath [seg ''a'', seg ''b''])) = ret None \<and>
   ws_recurse_path lcmp_name ex_tpath (couplet_of (kpath [seg ''a'', seg ''b'']))
     = ret (Some [seg ''b'']) \<and>
   ws_recurse_path lcmp_name ex_tpath (couplet_of (kpath [seg ''c'', seg ''b''])) = ret None \<and>
   ws_recurse_path lcmp_name ex_tpath (couplet_of (kpath [seg ''c''])) = ret (Some [seg ''b''])"
proof -
  have c: "\<And>l. get_value_type (couplet_of l) = V_COUPLET"
    by (simp add: couplet_of_def)
  have la: "ws_get_label_from_lhs (Some (seg ''a'')) = Inr (Some (Label (Some ''a'') None), [])"
    by (simp add: ws_get_label_from_lhs_def seg_def ret_def)
  have lb: "\<And>n. ws_get_label_from_lhs (Some (W K_PATH (WV_ws (Some [seg n, seg ''b''])))) =
      Inr (Some (Label (Some n) None), [])"
    by (simp add: ws_get_label_from_lhs_def seg_def) (simp add: ret_def)
  show ?thesis
    using c
      ws_recurse_path_rule [where p = "couplet_of (kpath [seg ''a'', seg ''b''])"
        and w = ex_wnest and body = "Some [seg ''b'']" and lcmp = lcmp_name]
      ws_recurse_path_rule [where p = "couplet_of (kpath [seg ''a'', seg ''b''])"
        and w = "seg ''a''" and lcmp = lcmp_name]
      ws_recurse_path_rule [where p = "couplet_of (kpath [seg ''a'', seg ''b''])"
        and w = ex_tpath and lcmp = lcmp_name and wl = "Some (seg ''a'')" and rc = P_WS
        and rest = "Some [seg ''b'']" and pc = T_TYPE and plc = K_PATH
        and segs = "Some [seg ''a'', seg ''b'']"
        and pr = "Some (W K_NAME (WV_string (Some ''rhs'')))"
        and la = "Some (Label (Some ''a'') None)" and da = "[]"
        and lb = "Some (Label (Some ''a'') None)" and db = "[]"]
      ws_recurse_path_rule [where p = "couplet_of (kpath [seg ''c'', seg ''b''])"
        and w = ex_tpath and lcmp = lcmp_name and wl = "Some (seg ''a'')" and rc = P_WS
        and rest = "Some [seg ''b'']" and pc = T_TYPE and plc = K_PATH
        and segs = "Some [seg ''c'', seg ''b'']"
        and pr = "Some (W K_NAME (WV_string (Some ''rhs'')))"
        and la = "Some (Label (Some ''a'') None)" and da = "[]"
        and lb = "Some (Label (Some ''c'') None)" and db = "[]"]
      ws_recurse_path_rule [where p = "couplet_of (kpath [seg ''c''])"
        and w = ex_tpath and lcmp = lcmp_name and wl = "Some (seg ''a'')" and rc = P_WS
        and rest = "Some [seg ''b'']" and pc = T_TYPE and plc = K_PATH
        and segs = "Some [seg ''c'']"
        and pr = "Some (W K_NAME (WV_string (Some ''rhs'')))"]
      la lb
    by (simp add: ex_wnest_def ex_tpath_def couplet_of_def kpath_def lcmp_name_def ret_def)
       (simp add: seg_def)
qed

section \<open>Properties of the tables in memory\<close>

lemma hbind_Done:
  "m h = Done x h' l \<Longrightarrow>
   hbind m f h =
     (case f x h' of Done y h'' l' \<Rightarrow> Done y h'' (l @ l') | Stop e \<Rightarrow> Stop e | Timeout \<Rightarrow> Timeout)"
  by (simp add: hbind_def)

lemma hbind_hret [simp]: "hbind (hret x) f h = f x h"
  by (simp add: hbind_def hret_def split: outcome.splits)

lemma get_entry_at: "a < length h \<Longrightarrow> h ! a = O_entry c \<Longrightarrow> get_entry (Some a) h = Done c h []"
  by (simp add: get_entry_def)

lemma get_table_at: "a < length h \<Longrightarrow> h ! a = O_table c \<Longrightarrow> get_table (Some a) h = Done c h []"
  by (simp add: get_table_def)

lemma put_at: "a < length h \<Longrightarrow> put (Some a) ob h = Done () (h[a := ob]) []"
  by (simp add: put_def)

lemma chain_is_entry:
  "chain h p as \<Longrightarrow> a \<in> set as \<Longrightarrow> a < length h \<and> (\<exists>c. h ! a = O_entry c)"
  by (induction as arbitrary: p) (auto split: obj.splits)

lemma chain_frame:
  "a \<notin> set as \<Longrightarrow> chain (h[a := ob]) p as = chain h p as"
  by (induction as arbitrary: p) (auto split: obj.splits)

lemma chain_unique: "chain h p as \<Longrightarrow> chain h p bs \<Longrightarrow> as = bs"
proof (induction as arbitrary: p bs)
  case Nil
  then show ?case by (cases bs) auto
next
  case (Cons a as)
  then show ?case by (cases bs) (auto split: obj.splits)
qed

lemma chain_suffix: "chain h p (xs @ a # ys) \<Longrightarrow> chain h (Some a) (a # ys)"
  by (induction xs arbitrary: p) (auto split: obj.splits)

lemma chain_distinct: "chain h p as \<Longrightarrow> distinct as"
proof (induction as arbitrary: p)
  case Nil
  then show ?case by simp
next
  case (Cons a as)
  have "a \<notin> set as"
  proof
    assume "a \<in> set as"
    then obtain xs ys where as: "as = xs @ a # ys" by (auto simp: in_set_conv_decomp)
    with Cons.prems have "chain h (Some a) ((a # xs) @ a # ys)" by simp
    from chain_suffix [OF this] have "chain h (Some a) (a # ys)" .
    moreover from Cons.prems have "chain h (Some a) (a # as)" by simp
    ultimately have "a # ys = a # as" by (rule chain_unique)
    with as show False by simp
  qed
  moreover from Cons.prems obtain c :: entry_cell where "chain h (ec_next c) as"
    by (auto split: obj.splits)
  then have "distinct as" by (rule Cons.IH)
  ultimately show ?case by simp
qed

lemma chain_append:
  "chain h p as \<Longrightarrow> as \<noteq> [] \<Longrightarrow> h ! last as = O_entry lc \<Longrightarrow> chain h q bs \<Longrightarrow>
   set as \<inter> set bs = {} \<Longrightarrow>
   chain (h[last as := O_entry (lc\<lparr>ec_next := q\<rparr>)]) p (as @ bs)"
proof (induction as arbitrary: p)
  case Nil
  then show ?case by simp
next
  case (Cons a as)
  from Cons.prems(1) obtain c where
    p: "p = Some a" and a: "a < length h" and c: "h ! a = O_entry c"
    and rest: "chain h (ec_next c) as"
    by (auto split: obj.splits)
  show ?case
  proof (cases "as = []")
    case True
    with Cons.prems(3) c have "lc = c" by simp
    moreover have "chain (h[a := O_entry (c\<lparr>ec_next := q\<rparr>)]) q bs"
      using Cons.prems(4,5) by (simp add: chain_frame)
    ultimately show ?thesis using True p a by simp
  next
    case False
    from chain_distinct [OF Cons.prems(1)] False have ne: "a \<noteq> last as" by auto
    have "chain (h[last as := O_entry (lc\<lparr>ec_next := q\<rparr>)]) (ec_next c) (as @ bs)"
      using Cons.IH [OF rest False _ Cons.prems(4)] Cons.prems(3,5) False by auto
    then show ?thesis using False p a c ne by simp
  qed
qed

lemma holds_unique: "holds h t as \<Longrightarrow> holds h t bs \<Longrightarrow> as = bs"
  by (cases t) (auto split: obj.splits dest: chain_unique)

lemma has_head_holds:
  "holds h t as \<Longrightarrow> has_head t h = Done (as \<noteq> []) h []"
proof (cases t)
  case None
  assume "holds h t as"
  with None show ?thesis by (simp add: has_head_def hret_def)
next
  case (Some a)
  assume "holds h t as"
  with Some obtain tc where a: "a < length h" and tc: "h ! a = O_table tc"
    and ch: "chain h (tc_head tc) as"
    by (auto split: obj.splits)
  from ch have "(tc_head tc \<noteq> None) = (as \<noteq> [])" by (cases as) auto
  then show ?thesis using Some a tc
    by (simp add: has_head_def get_table_at hret_def hbind_def)
qed

text \<open>Joining two tables that hold disjoint chains.\<close>

lemma table_join_h_holds:
  assumes a: "holds h a as" and b: "holds h b bs" and dj: "set as \<inter> set bs = {}"
  shows "\<exists>h'. table_join_h a b h = Done (if as = [] \<and> bs \<noteq> [] then b else a) h' []
           \<and> holds h' (if as = [] \<and> bs \<noteq> [] then b else a) (as @ bs)
           \<and> length h' = length h
           \<and> (\<forall>x. x \<notin> set as \<longrightarrow> Some x \<noteq> a \<longrightarrow> h' ! x = h ! x)
           \<and> (as = [] \<or> bs = [] \<longrightarrow> h' = h)"
proof (cases "bs = []")
  case True
  then show ?thesis using a has_head_holds [OF b]
    by (simp add: table_join_h_def hret_def hbind_def)
next
  case bne: False
  show ?thesis
  proof (cases "as = []")
    case True
    then show ?thesis using b bne has_head_holds [OF b] has_head_holds [OF a]
      by (simp add: table_join_h_def hret_def hbind_def)
  next
    case ane: False
    from a ane obtain ta ac where ta: "a = Some ta" "ta < length h" "h ! ta = O_table ac"
      and cha: "chain h (tc_head ac) as" and taila: "tc_tail ac = Some (last as)"
      by (cases a) (auto simp: last_of_def split: obj.splits)
    from b bne obtain tb bc where tb: "b = Some tb" "tb < length h" "h ! tb = O_table bc"
      and chb: "chain h (tc_head bc) bs" and tailb: "tc_tail bc = Some (last bs)"
      by (cases b) (auto simp: last_of_def split: obj.splits)
    from chain_is_entry [OF cha, of "last as"] ane obtain lc where
      la: "last as < length h" "h ! last as = O_entry lc" by auto
    let ?h1 = "h[last as := O_entry (lc\<lparr>ec_next := tc_head bc\<rparr>)]"
    let ?h2 = "?h1[ta := O_table (ac\<lparr>tc_tail := tc_tail bc\<rparr>)]"
    have ta_as: "ta \<notin> set as" using chain_is_entry [OF cha, of ta] ta by auto
    have ta_bs: "ta \<notin> set bs" using chain_is_entry [OF chb, of ta] ta by auto
    have j: "join_h a b h = Done () ?h2 []"
      using ta tb la taila
      by (simp add: join_h_def get_table_at get_entry_at put_at hbind_def)
    have run: "table_join_h a b h = Done a ?h2 []"
      using has_head_holds [OF b] has_head_holds [OF a] bne ane j
      by (simp add: table_join_h_def hret_def hbind_def)
    have "chain ?h1 (tc_head ac) (as @ bs)"
      using chain_append [OF cha ane la(2) chb dj] .
    then have "chain ?h2 (tc_head ac) (as @ bs)"
      using ta_as ta_bs by (simp add: chain_frame)
    then have "holds ?h2 a (as @ bs)"
      using ta tailb bne by (simp add: last_of_def)
    moreover have "\<forall>x. x \<notin> set as \<longrightarrow> Some x \<noteq> a \<longrightarrow> ?h2 ! x = h ! x"
    proof (intro allI impI)
      fix x assume "x \<notin> set as" "Some x \<noteq> a"
      with ta last_in_set [OF ane] have "x \<noteq> last as" "x \<noteq> ta" by auto
      then show "?h2 ! x = h ! x" by simp
    qed
    ultimately show ?thesis using run ane bne by simp
  qed
qed

lemma holds_frame:
  assumes "holds h c cs" and "length h' = length h"
    and "\<forall>x. x \<in> set cs \<or> Some x = c \<longrightarrow> h' ! x = h ! x"
  shows "holds h' c cs"
proof -
  have ch: "\<And>p. chain h p cs \<Longrightarrow> \<forall>x \<in> set cs. h' ! x = h ! x \<Longrightarrow> chain h' p cs"
  proof (induction cs)
    case Nil
    then show ?case by simp
  next
    case (Cons a as)
    then show ?case using assms(2) by (auto split: obj.splits)
  qed
  show ?thesis
  proof (cases c)
    case None
    with assms(1) show ?thesis by simp
  next
    case (Some t)
    with assms show ?thesis by (auto split: obj.splits intro: ch)
  qed
qed

lemma holds_cell:
  "holds h (Some t) as \<Longrightarrow> t < length h \<and> (\<exists>tc. h ! t = O_table tc) \<and> t \<notin> set as"
proof -
  assume a: "holds h (Some t) as"
  then obtain tc where t: "t < length h" "h ! t = O_table tc" and ch: "chain h (tc_head tc) as"
    by (auto split: obj.splits)
  from chain_is_entry [OF ch, of t] t have "t \<notin> set as" by auto
  with t show ?thesis by simp
qed

text \<open>A third table keeps its sequence when two others are joined.\<close>

lemma holds_after_join:
  assumes a: "holds h a as" and b: "holds h b bs" and c: "holds h c cs"
    and ab: "set as \<inter> set bs = {}" and ac: "set as \<inter> set cs = {}"
    and run: "table_join_h a b h = Done r h' l"
  shows "holds h' c cs"
proof -
  from table_join_h_holds [OF a b ab] run
  have len: "length h' = length h"
    and fr: "\<forall>x. x \<notin> set as \<longrightarrow> Some x \<noteq> a \<longrightarrow> h' ! x = h ! x"
    and triv: "as = [] \<or> bs = [] \<longrightarrow> h' = h"
    by auto
  show ?thesis
  proof (cases "as = []")
    case True
    with triv c show ?thesis by simp
  next
    case False
    then obtain ta where ta: "a = Some ta" using a by (cases a) auto
    from holds_cell [OF a [unfolded ta]] obtain tc where tc: "h ! ta = O_table tc" by blast
    have "\<forall>x. x \<in> set cs \<or> Some x = c \<longrightarrow> h' ! x = h ! x"
    proof (intro allI impI)
      fix x assume x: "x \<in> set cs \<or> Some x = c"
      have "x \<notin> set as"
      proof (cases "x \<in> set cs")
        case True
        with ac show ?thesis by auto
      next
        case False
        with x have "c = Some x" by simp
        from holds_cell [OF c [unfolded this]] obtain xc where xc: "h ! x = O_table xc" by blast
        show ?thesis
        proof
          assume "x \<in> set as"
          with a ta obtain tc' :: table_cell where "chain h (tc_head tc') as" by (auto split: obj.splits)
          from chain_is_entry [OF this \<open>x \<in> set as\<close>] xc show False by auto
        qed
      qed
      moreover have "Some x \<noteq> a"
      proof
        assume eq: "Some x = a"
        show False
        proof (cases "x \<in> set cs")
          case True
          with c obtain p where "chain h p cs" by (cases c) (auto split: obj.splits)
          from chain_is_entry [OF this True] tc eq ta show False by auto
        next
          case False
          with x eq have "c = a" by simp
          with a c have "cs = as" by (auto dest: holds_unique)
          with ac \<open>as \<noteq> []\<close> show False by auto
        qed
      qed
      ultimately show "h' ! x = h ! x" using fr by blast
    qed
    with c len show ?thesis by (rule holds_frame)
  qed
qed

lemma table_join_h_twice:
  assumes a: "holds h a as" and b: "holds h b bs" and c: "holds h c cs"
    and ab: "set as \<inter> set bs = {}" and ac: "set as \<inter> set cs = {}"
    and bc: "set bs \<inter> set cs = {}"
  shows "\<exists>r h'. hbind (table_join_h a b) (\<lambda>x. table_join_h x c) h = Done r h' []
           \<and> holds h' r (as @ bs @ cs) \<and> length h' = length h"
    and "\<exists>r h'. hbind (table_join_h b c) (\<lambda>x. table_join_h a x) h = Done r h' []
           \<and> holds h' r (as @ bs @ cs) \<and> length h' = length h"
proof -
  from table_join_h_holds [OF a b ab] obtain r1 h1 where
    1: "table_join_h a b h = Done r1 h1 []" "holds h1 r1 (as @ bs)" "length h1 = length h"
    by blast
  have c1: "holds h1 c cs" using holds_after_join [OF a b c ab ac 1(1)] .
  have "set (as @ bs) \<inter> set cs = {}" using ac bc by auto
  from table_join_h_holds [OF 1(2) c1 this] obtain r2 h2 where
    2: "table_join_h r1 c h1 = Done r2 h2 []" "holds h2 r2 ((as @ bs) @ cs)"
       "length h2 = length h1"
    by blast
  show "\<exists>r h'. hbind (table_join_h a b) (\<lambda>x. table_join_h x c) h = Done r h' []
           \<and> holds h' r (as @ bs @ cs) \<and> length h' = length h"
    using 1 2 by (simp add: hbind_def)
next
  have ba: "set bs \<inter> set as = {}" using ab by auto
  from table_join_h_holds [OF b c bc] obtain r1 h1 where
    1: "table_join_h b c h = Done r1 h1 []" "holds h1 r1 (bs @ cs)" "length h1 = length h"
    by blast
  have a1: "holds h1 a as" using holds_after_join [OF b c a bc ba 1(1)] .
  have "set as \<inter> set (bs @ cs) = {}" using ab ac by auto
  from table_join_h_holds [OF a1 1(2) this] obtain r2 h2 where
    2: "table_join_h a r1 h1 = Done r2 h2 []" "holds h2 r2 (as @ bs @ cs)"
       "length h2 = length h1"
    by blast
  show "\<exists>r h'. hbind (table_join_h b c) (\<lambda>x. table_join_h a x) h = Done r h' []
           \<and> holds h' r (as @ bs @ cs) \<and> length h' = length h"
    using 1 2 by (simp add: hbind_def)
qed

subsection \<open>Adding to a table without a tail\<close>

text \<open>
  C8. When the tail of the table is NULL (whether or not it has a head), \<open>table_add\<close>
  prints one warning and returns the pointer it was given; the call returns, and the
  store it leaves is the old store, every object of it unchanged, followed by the
  isolated copy of the entry, which nothing refers to: the entry is dropped and the
  table is as it was.
\<close>

theorem table_add_h_tailless:
  "t < length h \<Longrightarrow> h ! t = O_table tc \<Longrightarrow> tc_tail tc = None \<Longrightarrow>
   e < length h \<Longrightarrow> h ! e = O_entry c \<Longrightarrow>
   table_add_h (Some t) (Some e) h =
     Done (Some t) (h @ [O_entry (c\<lparr>ec_next := None\<rparr>)]) [Warn_tailless]"
  by (simp add: table_add_h_def entry_isolate_h_def hbind_def get_entry_def get_table_def
      malloc_def hsay_def hret_def nth_append)

theorem table_add_h_tailless_witness:
  "(9::nat) < length ex_heap \<and>
   ex_heap ! 9 = O_table \<lparr>tc_head = Some 2, tc_tail = None\<rparr> \<and>
   tc_tail \<lparr>tc_head = Some 2, tc_tail = None\<rparr> = None \<and>
   (5::nat) < length ex_heap \<and>
   ex_heap ! 5 = cell (Some 1) None \<and>
   table_add_h (Some 9) (Some 5) ex_heap =
     Done (Some 9) (ex_heap @ [cell (Some 1) None]) [Warn_tailless]"
  using table_add_h_tailless [of 9 ex_heap "\<lparr>tc_head = Some 2, tc_tail = None\<rparr>" 5
    "\<lparr>ec_id = Some 0, ec_type = C_POSITIONAL, ec_value = Some 1, ec_next = None\<rparr>"]
  by (simp add: ex_heap_def cell_def)

subsection \<open>Joining\<close>

text \<open>
  C5. For tables \<open>a\<close>, \<open>b\<close>, \<open>c\<close> that hold the pairwise disjoint entry sequences \<open>as\<close>,
  \<open>bs\<close>, \<open>cs\<close> (a table is a NULL pointer or a table cell; a sequence is the list of the
  cells of its chain):
  joining an empty \<open>b\<close> to \<open>a\<close> returns the pointer \<open>a\<close> and leaves the store as it is;
  joining \<open>b\<close>, not empty, to an empty \<open>a\<close> returns the pointer \<open>b\<close> and leaves the store
  as it is;
  joining \<open>b\<close> to \<open>a\<close>, neither empty, returns the pointer \<open>a\<close>, which then holds \<open>as\<close>
  followed by \<open>bs\<close>, in a store of the same size: nothing is allocated, \<open>b\<close> is spliced
  after the tail of \<open>a\<close>;
  and joining \<open>a\<close> with \<open>b\<close> and the result with \<open>c\<close>, or \<open>a\<close> with the join of \<open>b\<close> and
  \<open>c\<close>, gives in both orders a table that holds \<open>as\<close>, \<open>bs\<close>, \<open>cs\<close> in this order.
\<close>

theorem table_join_h_identity_assoc:
  assumes "holds h a as" and "holds h b bs" and "holds h c cs"
    and "set as \<inter> set bs = {}" and "set as \<inter> set cs = {}" and "set bs \<inter> set cs = {}"
  shows
   "(bs = [] \<longrightarrow> table_join_h a b h = Done a h []) \<and>
    (as = [] \<and> bs \<noteq> [] \<longrightarrow> table_join_h a b h = Done b h []) \<and>
    (as \<noteq> [] \<and> bs \<noteq> [] \<longrightarrow>
       (\<exists>h'. table_join_h a b h = Done a h' [] \<and> length h' = length h
             \<and> holds h' a (as @ bs))) \<and>
    (\<exists>r h'. hbind (table_join_h a b) (\<lambda>ab. table_join_h ab c) h = Done r h' []
             \<and> holds h' r (as @ bs @ cs)) \<and>
    (\<exists>r h'. hbind (table_join_h b c) (\<lambda>bc. table_join_h a bc) h = Done r h' []
             \<and> holds h' r (as @ bs @ cs))"
proof -
  from table_join_h_holds [OF assms(1,2,4)] obtain h' where
    j: "table_join_h a b h = Done (if as = [] \<and> bs \<noteq> [] then b else a) h' []"
       "holds h' (if as = [] \<and> bs \<noteq> [] then b else a) (as @ bs)"
       "length h' = length h" "as = [] \<or> bs = [] \<longrightarrow> h' = h"
    by blast
  have 1: "bs = [] \<longrightarrow> table_join_h a b h = Done a h []" using j by auto
  have 2: "as = [] \<and> bs \<noteq> [] \<longrightarrow> table_join_h a b h = Done b h []" using j by auto
  have 3: "as \<noteq> [] \<and> bs \<noteq> [] \<longrightarrow>
       (\<exists>h'. table_join_h a b h = Done a h' [] \<and> length h' = length h
             \<and> holds h' a (as @ bs))" using j by auto
  from table_join_h_twice [OF assms] have
    4: "\<exists>r h'. hbind (table_join_h a b) (\<lambda>ab. table_join_h ab c) h = Done r h' []
             \<and> holds h' r (as @ bs @ cs)"
    and 5: "\<exists>r h'. hbind (table_join_h b c) (\<lambda>bc. table_join_h a bc) h = Done r h' []
             \<and> holds h' r (as @ bs @ cs)"
    by blast+
  from 1 2 3 4 5 show ?thesis by blast
qed

theorem table_join_h_identity_assoc_witness:
  "holds ex_heap (Some 4) [2, 3] \<and> holds ex_heap (Some 6) [5] \<and> holds ex_heap (Some 8) [7] \<and>
   holds ex_heap None [] \<and>
   table_join_h (Some 4) None ex_heap = Done (Some 4) ex_heap [] \<and>
   table_join_h None (Some 6) ex_heap = Done (Some 6) ex_heap [] \<and>
   (\<exists>h'. table_join_h (Some 4) (Some 6) ex_heap = Done (Some 4) h' []
      \<and> length h' = length ex_heap \<and> holds h' (Some 4) [2, 3, 5]) \<and>
   (\<exists>r h'. hbind (table_join_h (Some 4) (Some 6)) (\<lambda>ab. table_join_h ab (Some 8)) ex_heap
      = Done r h' [] \<and> holds h' r [2, 3, 5, 7]) \<and>
   (\<exists>r h'. hbind (table_join_h (Some 6) (Some 8)) (\<lambda>bc. table_join_h (Some 4) bc) ex_heap
      = Done r h' [] \<and> holds h' r [2, 3, 5, 7])"
proof -
  have a: "holds ex_heap (Some 4) [2, 3]"
    and b: "holds ex_heap (Some 6) [5]"
    and c: "holds ex_heap (Some 8) [7]"
    and n: "holds ex_heap None []"
    by (simp_all add: ex_heap_def cell_def last_of_def)
  have d: "set [2, 3] \<inter> set [5] = ({} :: nat set)" "set [2, 3] \<inter> set [7] = ({} :: nat set)"
    "set [5] \<inter> set [7] = ({} :: nat set)" "set [2, 3] \<inter> set [] = ({} :: nat set)"
    "set [] \<inter> set [5] = ({} :: nat set)" "set [] \<inter> set [7] = ({} :: nat set)"
    by simp_all
  show ?thesis
    using a b c n
      table_join_h_identity_assoc [OF a b c d(1,2,3)]
      table_join_h_identity_assoc [OF a n c d(4,2,6)]
      table_join_h_identity_assoc [OF n b c d(5,6,3)]
    by simp
qed

subsection \<open>The value of a clone\<close>

lemma cloned_entries_Nil [simp]: "(cloned_entries es = []) = (es = [])"
  by (cases es rule: cloned_entries.cases) auto

lemma no_manifold_Cons:
  "no_manifold (e # es) =
     (e_type e \<noteq> C_MANIFOLD \<and>
      (four_recursive (e_type e) \<longrightarrow> no_manifold (nested e)) \<and> no_manifold es)"
  by (auto simp: no_manifold_def)

lemma cloned_flatten_aux:
  "(clonable es \<longrightarrow> no_manifold es \<longrightarrow>
      map summary (preorder_by four_recursive (cloned_entries es)) =
      map summary (preorder_by four_recursive es))"
  "(\<forall>i t. clonable_value t v \<longrightarrow>
      (t \<noteq> C_MANIFOLD \<longrightarrow> terminal (cloned_value v) = terminal v) \<and>
      (no_manifold (nested (Entry i t v)) \<longrightarrow>
         map summary (preorder_by four_recursive (nested (Entry i t (cloned_value v)))) =
         map summary (preorder_by four_recursive (nested (Entry i t v)))))"
proof (induction es and v rule: cloned_entries_cloned_value.induct)
  case 1
  show ?case by simp
next
  case (2 i t v es)
  show ?case
  proof (intro impI)
    assume c: "clonable (Entry i t v # es)" and nm: "no_manifold (Entry i t v # es)"
    from c have cv: "clonable_value t v" and ce: "clonable es" by simp_all
    from nm have t: "t \<noteq> C_MANIFOLD"
      and nn: "four_recursive t \<longrightarrow> no_manifold (nested (Entry i t v))"
      and ne: "no_manifold es"
      by (simp_all add: no_manifold_Cons)
    from 2(1) cv t have tm: "terminal (cloned_value v) = terminal v" by blast
    from 2(1) cv nn have sub: "four_recursive t \<longrightarrow>
         map summary (preorder_by four_recursive (nested (Entry i t (cloned_value v)))) =
         map summary (preorder_by four_recursive (nested (Entry i t v)))" by blast
    from 2(2) ce ne have rest: "map summary (preorder_by four_recursive (cloned_entries es)) =
      map summary (preorder_by four_recursive es)" by blast
    show "map summary (preorder_by four_recursive (cloned_entries (Entry i t v # es))) =
      map summary (preorder_by four_recursive (Entry i t v # es))"
      using tm sub rest by (simp add: summary_def)
  qed
next
  case 3
  show ?case by simp
next
  case (4 es)
  then show ?case by auto
next
  case (5 m)
  show ?case by simp
next
  case (6 s)
  show ?case by simp
qed

lemma cloned_flatten:
  "clonable (entries tb) \<Longrightarrow> no_manifold (entries tb) \<Longrightarrow>
   flatten_entries (cloned_table tb) = flatten_entries tb"
  using cloned_flatten_aux(1) [of "entries tb"]
  by (simp add: flatten_entries_def cloned_table_def)

subsection \<open>Laid out tables and the store\<close>

lemma contains_Nil [simp]: "contains h []"
  by (simp add: contains_def)

lemma contains_Cons [simp]:
  "contains h ((a, ob) # xs) = (a < length h \<and> h ! a = ob \<and> contains h xs)"
  by (simp add: contains_def)

lemma contains_append [simp]: "contains h (xs @ ys) = (contains h xs \<and> contains h ys)"
  by (simp add: contains_def)

lemma addrs_simps [simp]:
  "addrs [] = []" "addrs ((a, ob) # xs) = a # addrs xs" "addrs (xs @ ys) = addrs xs @ addrs ys"
  by (simp_all add: addrs_def)

lemma contains_below: "contains h xs \<Longrightarrow> a \<in> set (addrs xs) \<Longrightarrow> a < length h"
  by (induction xs) auto

lemma contains_frame:
  "contains h xs \<Longrightarrow> length h \<le> length h' \<Longrightarrow> \<forall>a \<in> set (addrs xs). h' ! a = h ! a \<Longrightarrow>
   contains h' xs"
  by (induction xs) auto

lemma contains_update:
  "contains h xs \<Longrightarrow> a \<notin> set (addrs xs) \<Longrightarrow> contains (h[a := ob]) xs"
proof (rule contains_frame)
  assume na: "a \<notin> set (addrs xs)"
  show "\<forall>x \<in> set (addrs xs). h[a := ob] ! x = h ! x"
  proof
    fix x assume "x \<in> set (addrs xs)"
    with na have "a \<noteq> x" by auto
    then show "h[a := ob] ! x = h ! x" by simp
  qed
qed simp_all

lemma contains_extend: "contains h xs \<Longrightarrow> contains (h @ ys) xs"
  by (rule contains_frame) (auto simp: nth_append dest: contains_below)

lemma addrs_entries_append:
  "addrs (objs_entries (es @ fs)) = addrs (objs_entries es) @ addrs (objs_entries fs)"
proof (induction es)
  case Nil
  show ?case by simp
next
  case (Cons e es)
  then show ?case by (cases e) simp
qed

lemma head_ptr_append: "es \<noteq> [] \<Longrightarrow> head_ptr (es @ fs) = head_ptr es"
  by (cases es) simp_all

lemma last_in_addrs:
  "es \<noteq> [] \<Longrightarrow> le_addr (last es) \<in> set (addrs (objs_entries es))"
proof (induction es)
  case Nil
  then show ?case by simp
next
  case (Cons e es)
  then show ?case by (cases e) auto
qed

text \<open>Linking a second sequence after the last cell of a first one.\<close>

lemma contains_link:
  assumes "contains h (objs_entries es)" and "es \<noteq> []"
    and "distinct (addrs (objs_entries es))"
    and "contains h (objs_entries fs)"
    and "le_addr (last es) \<notin> set (addrs (objs_entries fs))"
    and "h ! le_addr (last es) = O_entry lc"
  shows "contains (h[le_addr (last es) := O_entry (lc\<lparr>ec_next := head_ptr fs\<rparr>)])
           (objs_entries (es @ fs))"
  using assms
proof (induction es)
  case Nil
  then show ?case by simp
next
  case (Cons e es)
  obtain a i t v where e: "e = LEntry a i t v" by (cases e)
  show ?case
  proof (cases "es = []")
    case True
    from Cons.prems(1,6) e True have lc:
      "lc = \<lparr>ec_id = map_option fst i, ec_type = t, ec_value = vptr v, ec_next = None\<rparr>"
      and a: "a < length h"
      by simp_all
    have "contains (h[a := O_entry (lc\<lparr>ec_next := head_ptr fs\<rparr>)]) (objs_id i @ objs_value v)"
      using Cons.prems(1,3) e True by (intro contains_update) simp_all
    moreover have "contains (h[a := O_entry (lc\<lparr>ec_next := head_ptr fs\<rparr>)]) (objs_entries fs)"
      using Cons.prems(4,5) e True by (intro contains_update) simp_all
    ultimately show ?thesis using e True lc a by simp
  next
    case False
    let ?la = "le_addr (last es)"
    let ?h = "h[?la := O_entry (lc\<lparr>ec_next := head_ptr fs\<rparr>)]"
    have la: "?la \<in> set (addrs (objs_entries es))" using False by (rule last_in_addrs)
    have ne: "a \<noteq> ?la" "?la \<notin> set (addrs (objs_id i @ objs_value v))"
      using Cons.prems(3) e la by auto
    have ih: "contains ?h (objs_entries (es @ fs))"
      using Cons.IH Cons.prems e False by simp
    have "contains ?h (objs_id i @ objs_value v)"
      using Cons.prems(1) e ne by (intro contains_update) simp_all
    moreover have "a < length ?h \<and> ?h ! a = O_entry \<lparr>ec_id = map_option fst i, ec_type = t,
        ec_value = vptr v, ec_next = head_ptr (es @ fs)\<rparr>"
      using Cons.prems(1) e ne False by (simp add: head_ptr_append)
    ultimately show ?thesis using e False ih by simp
  qed
qed

lemma last_cell:
  "contains h (objs_entries es) \<Longrightarrow> es \<noteq> [] \<Longrightarrow>
   le_addr (last es) < length h \<and> (\<exists>lc. h ! le_addr (last es) = O_entry lc)"
proof (induction es)
  case Nil
  then show ?case by simp
next
  case (Cons e es)
  then show ?case by (cases e) auto
qed

lemma erase_entries_append:
  "erase_entries (es @ fs) = erase_entries es @ erase_entries fs"
proof (induction es)
  case Nil
  show ?case by simp
next
  case (Cons e es)
  then show ?case by (cases e) simp
qed

lemma erase_entries_Nil [simp]: "(erase_entries es = []) = (es = [])"
  by (cases es rule: erase_entries.cases(1)) auto

text \<open>
  \<open>table_add\<close> on a laid out table: the isolated copy of the entry becomes the last
  entry; only cells of the table are written, two objects at most are allocated.
\<close>

lemma table_add_h_located:
  assumes T: "contains h (objs_table T)" "proper T" "distinct (addrs (objs_table T))"
    and ea: "ea < length h"
      "h ! ea = O_entry \<lparr>ec_id = map_option fst i, ec_type = t, ec_value = vptr v,
                         ec_next = None\<rparr>"
    and pay: "contains h (objs_id i @ objs_value v)"
      "distinct (addrs (objs_id i @ objs_value v))"
    and dj: "set (addrs (objs_id i @ objs_value v)) \<inter> set (addrs (objs_table T)) = {}"
  shows "\<exists>T' h'. table_add_h (tptr T) (Some ea) h = Done (tptr T') h' []
      \<and> contains h' (objs_table T') \<and> proper T' \<and> distinct (addrs (objs_table T'))
      \<and> set (addrs (objs_table T')) \<subseteq>
          set (addrs (objs_table T)) \<union> set (addrs (objs_id i @ objs_value v))
          \<union> {length h, Suc (length h)}
      \<and> length h \<le> length h'
      \<and> (\<forall>x < length h. x \<notin> set (addrs (objs_table T)) \<longrightarrow> h' ! x = h ! x)
      \<and> erase_table T' =
          of_list (entries (erase_table T) @ [Entry (map_option snd i) t (erase_value v)])"
proof -
  let ?c = "\<lparr>ec_id = map_option fst i, ec_type = t, ec_value = vptr v, ec_next = None\<rparr>"
  let ?iso = "length h"
  let ?h5 = "h @ [O_entry ?c]"
  let ?e = "LEntry ?iso i t v"
  let ?P = "objs_id i @ objs_value v"
  have iso: "entry_isolate_h (Some ea) h = Done (Some ?iso) ?h5 []"
    using ea by (simp add: entry_isolate_h_def get_entry_def hbind_def malloc_def)
  have pb: "\<And>x. x \<in> set (addrs ?P) \<Longrightarrow> x < length h"
    using pay(1) by (rule contains_below)
  have pn: "length h \<notin> set (addrs ?P)" "Suc (length h) \<notin> set (addrs ?P)"
    using pb [of "length h"] pb [of "Suc (length h)"] by auto
  have p5: "contains ?h5 ?P" using pay(1) by (rule contains_extend)
  have e5: "contains ?h5 (objs_entries [?e])"
    using p5 by simp
  show ?thesis
  proof (cases T)
    case LNull
    let ?h6 = "?h5 @ [O_table \<lparr>tc_head = Some ?iso, tc_tail = Some ?iso\<rparr>]"
    let ?T = "LTab (Suc ?iso) [?e]"
    have run: "table_add_h (tptr T) (Some ea) h = Done (tptr ?T) ?h6 []"
      using iso LNull by (simp add: table_add_h_def hbind_def table_new_h_def malloc_def)
    have c6: "contains ?h6 (objs_table ?T)"
      using contains_extend [OF e5, of "[O_table \<lparr>tc_head = Some ?iso, tc_tail = Some ?iso\<rparr>]"]
      by (simp add: last_ptr_def nth_append)
    have d6: "distinct (addrs (objs_table ?T))"
      using pay(2) pn by simp
    have f6: "\<forall>x < length h. ?h6 ! x = h ! x" by (simp add: nth_append)
    show ?thesis
      using run c6 d6 f6 LNull
      by (intro exI [of _ ?T] exI [of _ ?h6]) (auto simp: of_list_def)
  next
    case (LTab tc es)
    with T(2) have ne: "es \<noteq> []" by simp
    let ?tcell = "\<lparr>tc_head = head_ptr es, tc_tail = last_ptr es\<rparr>"
    let ?la = "le_addr (last es)"
    from T(1) LTab have tc: "tc < length h" "h ! tc = O_table ?tcell"
      and ces: "contains h (objs_entries es)"
      by simp_all
    from T(3) LTab have des: "distinct (addrs (objs_entries es))"
      and tces: "tc \<notin> set (addrs (objs_entries es))"
      by simp_all
    from last_cell [OF ces ne] obtain lc where la: "?la < length h" "h ! ?la = O_entry lc"
      by blast
    have lain: "?la \<in> set (addrs (objs_entries es))" using ne by (rule last_in_addrs)
    have latc: "?la \<noteq> tc" using lain tces by auto
    have tail: "last_ptr es = Some ?la" using ne by (simp add: last_ptr_def)
    let ?h6a = "?h5[?la := O_entry (lc\<lparr>ec_next := Some ?iso\<rparr>)]"
    let ?h6 = "?h6a[tc := O_table (?tcell\<lparr>tc_tail := Some ?iso\<rparr>)]"
    let ?T = "LTab tc (es @ [?e])"
    have rt: "retail_h (Some tc) (Some ?iso) ?h5 = Done () ?h6 []"
      using tc la tail
      by (simp add: retail_h_def hbind_def get_table_def get_entry_def put_def nth_append)
    have run: "table_add_h (tptr T) (Some ea) h = Done (tptr ?T) ?h6 []"
      using iso LTab tc tail rt
      by (simp add: table_add_h_def hbind_def get_table_def nth_append hret_def)
    have la_e: "?la \<notin> set (addrs (objs_entries [?e]))"
      using la(1) lain dj LTab by auto
    have "contains ?h6a (objs_entries (es @ [?e]))"
      using contains_link [OF contains_extend [OF ces] ne des e5 la_e, of lc] la
      by (simp add: nth_append)
    moreover have tc_e: "tc \<notin> set (addrs (objs_entries (es @ [?e])))"
      using tces tc(1) dj LTab by (auto simp: addrs_entries_append)
    ultimately have "contains ?h6 (objs_entries (es @ [?e]))"
      by (rule contains_update)
    moreover have "tc < length ?h6 \<and> ?h6 ! tc = O_table \<lparr>tc_head = head_ptr (es @ [?e]),
        tc_tail = last_ptr (es @ [?e])\<rparr>"
      using tc(1) ne by (simp add: head_ptr_append last_ptr_def)
    ultimately have c6: "contains ?h6 (objs_table ?T)" by simp
    have d6: "distinct (addrs (objs_table ?T))"
      using des tces tc(1) pay(2) pn dj LTab contains_below [OF ces, of "length h"]
      by (auto simp: addrs_entries_append)
    have f6: "\<forall>x < length h. x \<notin> set (addrs (objs_table T)) \<longrightarrow> ?h6 ! x = h ! x"
    proof (intro allI impI)
      fix x assume "x < length h" "x \<notin> set (addrs (objs_table T))"
      with LTab lain have "x \<noteq> tc" "x \<noteq> ?la" by auto
      with \<open>x < length h\<close> show "?h6 ! x = h ! x" by (simp add: nth_append)
    qed
    have s6: "set (addrs (objs_table ?T)) \<subseteq>
          set (addrs (objs_table T)) \<union> set (addrs ?P) \<union> {length h, Suc (length h)}"
      using LTab by (auto simp: addrs_entries_append)
    have er: "erase_table ?T =
          of_list (entries (erase_table T) @ [Entry (map_option snd i) t (erase_value v)])"
      using LTab by (simp add: erase_entries_append of_list_def)
    show ?thesis
      using run c6 d6 f6 s6 er ne
      by (intro exI [of _ ?T] exI [of _ ?h6]) simp
  qed
qed

lemma set_value_h_at:
  "ea < length h \<Longrightarrow> h ! ea = O_entry c \<Longrightarrow>
   set_value_h (Some ea) p h = Done () (h[ea := O_entry (c\<lparr>ec_value := p\<rparr>)]) []"
  by (simp add: set_value_h_def hbind_def get_entry_def put_def)

text \<open>The switch of \<open>table_clone\<close> on the type of the entry, given what the nested call does.\<close>

lemma clone_payload_step:
  assumes cv: "clonable_value t (erase_value v)"
    and cont: "contains h2 (objs_value v)"
    and ea: "ea < length h2" "h2 ! ea = O_entry c1"
    and nested: "\<And>esn. \<exists>b. v = LV_table (LTab b esn) \<Longrightarrow>
      \<exists>Tn h3 Nn. (\<forall>n\<ge>Nn. table_clone_loop_h n (head_ptr esn) None h2 = Done (tptr Tn) h3 [])
        \<and> contains h3 (objs_table Tn)
        \<and> (\<forall>x \<in> set (addrs (objs_table Tn)). length h2 \<le> x)
        \<and> distinct (addrs (objs_table Tn))
        \<and> length h2 \<le> length h3 \<and> (\<forall>x < length h2. h3 ! x = h2 ! x)
        \<and> erase_table Tn = of_list (cloned_entries (erase_entries esn))"
  shows "\<exists>v' h4 N1.
      (\<forall>n\<ge>N1.
         (if t = T_PATH \<or> t = C_COMPOSON \<or> t = C_NEST \<or> t = C_DEREF
          then hbind (table_clone_h n (vptr v)) (set_value_h (Some ea))
          else if t = C_MANIFOLD
          then hbind manifold_new_h (set_value_h (Some ea))
          else if t = C_POSITIONAL \<or> t = C_GRPREF
          then hbind (strdup_h (vptr v)) (set_value_h (Some ea))
          else hstop Exit_failure) h2 = Done () h4 [])
      \<and> contains h4 (objs_value v')
      \<and> (\<forall>x \<in> set (addrs (objs_value v')). length h2 \<le> x)
      \<and> distinct (addrs (objs_value v'))
      \<and> length h2 \<le> length h4
      \<and> (\<forall>x < length h2. x \<noteq> ea \<longrightarrow> h4 ! x = h2 ! x)
      \<and> h4 ! ea = O_entry (c1\<lparr>ec_value := vptr v'\<rparr>)
      \<and> erase_value v' = cloned_value (erase_value v)"
proof (cases v)
  case (LV_table tb)
  with cv have four: "t = T_PATH \<or> t = C_COMPOSON \<or> t = C_NEST \<or> t = C_DEREF"
    by (cases tb) (simp_all add: four_recursive_def)
  show ?thesis
  proof (cases tb)
    case LNull
    let ?h4 = "h2[ea := O_entry (c1\<lparr>ec_value := None\<rparr>)]"
    have "\<forall>n\<ge>1. hbind (table_clone_h n (vptr v)) (set_value_h (Some ea)) h2 = Done () ?h4 []"
    proof (intro allI impI)
      fix n :: nat assume "1 \<le> n"
      then obtain m where "n = Suc m" by (cases n) auto
      then show "hbind (table_clone_h n (vptr v)) (set_value_h (Some ea)) h2 = Done () ?h4 []"
        using LV_table LNull set_value_h_at [OF ea, of None]
        by (simp add: hbind_def hret_def)
    qed
    then show ?thesis
      using four LV_table LNull ea
      by (intro exI [of _ "LV_table LNull"] exI [of _ ?h4] exI [of _ 1]) simp
  next
    case (LTab b esn)
    have "\<exists>b. v = LV_table (LTab b esn)" using LV_table LTab by simp
    from nested [OF this] obtain Tn h3 Nn where
      run: "\<forall>n\<ge>Nn. table_clone_loop_h n (head_ptr esn) None h2 = Done (tptr Tn) h3 []"
      and c3: "contains h3 (objs_table Tn)"
      and lo: "\<forall>x \<in> set (addrs (objs_table Tn)). length h2 \<le> x"
      and d3: "distinct (addrs (objs_table Tn))"
      and len: "length h2 \<le> length h3" and fr: "\<forall>x < length h2. h3 ! x = h2 ! x"
      and er: "erase_table Tn = of_list (cloned_entries (erase_entries esn))"
      by blast
    from cont LV_table LTab have b: "b < length h2"
      "h2 ! b = O_table \<lparr>tc_head = head_ptr esn, tc_tail = last_ptr esn\<rparr>"
      by simp_all
    have ea3: "ea < length h3" "h3 ! ea = O_entry c1" using ea len fr by auto
    let ?h4 = "h3[ea := O_entry (c1\<lparr>ec_value := tptr Tn\<rparr>)]"
    have "\<forall>n\<ge>Suc Nn. hbind (table_clone_h n (vptr v)) (set_value_h (Some ea)) h2 = Done () ?h4 []"
    proof (intro allI impI)
      fix n :: nat assume "Suc Nn \<le> n"
      then obtain m where m: "n = Suc m" "Nn \<le> m" by (cases n) auto
      with run have "table_clone_loop_h m (head_ptr esn) None h2 = Done (tptr Tn) h3 []" by blast
      then show "hbind (table_clone_h n (vptr v)) (set_value_h (Some ea)) h2 = Done () ?h4 []"
        using m LV_table LTab b set_value_h_at [OF ea3, of "tptr Tn"]
        by (simp add: hbind_def get_table_def)
    qed
    moreover have "ea \<notin> set (addrs (objs_table Tn))" using lo ea(1) by auto
    with c3 have "contains ?h4 (objs_table Tn)" by (rule contains_update)
    moreover have "\<forall>x < length h2. x \<noteq> ea \<longrightarrow> ?h4 ! x = h2 ! x" using fr by simp
    moreover have "erase_value (LV_table Tn) = cloned_value (erase_value v)"
      using er LV_table LTab by (simp add: of_list_def)
    ultimately show ?thesis
      using four lo d3 len ea3
      by (intro exI [of _ "LV_table Tn"] exI [of _ ?h4] exI [of _ "Suc Nn"]) simp
  qed
next
  case (LV_manifold m)
  with cv have t: "t = C_MANIFOLD" by simp
  let ?h3 = "h2 @ [O_manifold (Manifold [])]"
  let ?h4 = "?h3[ea := O_entry (c1\<lparr>ec_value := Some (length h2)\<rparr>)]"
  have ea3: "ea < length ?h3" "?h3 ! ea = O_entry c1" using ea by (simp_all add: nth_append)
  have "hbind manifold_new_h (set_value_h (Some ea)) h2 = Done () ?h4 []"
    using set_value_h_at [OF ea3, of "Some (length h2)"]
    by (simp add: hbind_def manifold_new_h_def malloc_def)
  moreover have "\<forall>x < length h2. x \<noteq> ea \<longrightarrow> ?h4 ! x = h2 ! x" by (simp add: nth_append)
  ultimately show ?thesis
    using t ea LV_manifold
    by (intro exI [of _ "LV_manifold (Some (length h2, Manifold []))"] exI [of _ ?h4]
        exI [of _ 0]) (simp add: nth_append)
next
  case (LV_string s)
  with cv obtain b x where t: "t = C_POSITIONAL \<or> t = C_GRPREF" and s: "s = Some (b, x)"
    by (cases s) auto
  from cont LV_string s have b: "b < length h2" "h2 ! b = O_string x" by simp_all
  let ?h3 = "h2 @ [O_string x]"
  let ?h4 = "?h3[ea := O_entry (c1\<lparr>ec_value := Some (length h2)\<rparr>)]"
  have ea3: "ea < length ?h3" "?h3 ! ea = O_entry c1" using ea by (simp_all add: nth_append)
  have "hbind (strdup_h (vptr v)) (set_value_h (Some ea)) h2 = Done () ?h4 []"
    using set_value_h_at [OF ea3, of "Some (length h2)"] LV_string s b
    by (simp add: hbind_def strdup_h_def get_string_def malloc_def)
  moreover have "\<forall>x < length h2. x \<noteq> ea \<longrightarrow> ?h4 ! x = h2 ! x" by (simp add: nth_append)
  ultimately show ?thesis
    using t ea LV_string s
    by (intro exI [of _ "LV_string (Some (length h2, x))"] exI [of _ ?h4]
        exI [of _ 0]) (auto simp: nth_append)
qed

lemma nested_entries_size:
  "size_list size esn < size_list size (LEntry a i t (LV_table (LTab b esn)) # es)"
  by simp

lemma id_clone_h_located:
  "contains h (objs_id i) \<Longrightarrow>
   \<exists>i' h1. id_clone_h (map_option fst i) h = Done (map_option fst i') h1 []
     \<and> contains h1 (objs_id i') \<and> set (addrs (objs_id i')) \<subseteq> {length h}
     \<and> length h \<le> length h1 \<and> length h1 \<le> Suc (length h)
     \<and> (\<forall>x < length h. h1 ! x = h ! x)
     \<and> map_option snd i' = map_option snd i"
proof (cases i)
  case None
  then show ?thesis
    by (intro exI [of _ None] exI [of _ h]) (simp add: id_clone_h_def hret_def)
next
  case (Some p)
  obtain b x where p: "p = (b, x)" by (cases p)
  assume "contains h (objs_id i)"
  with Some p have "b < length h" "h ! b = O_id x" by simp_all
  then show ?thesis using Some p
    by (intro exI [of _ "Some (length h, x)"] exI [of _ "h @ [O_id x]"])
       (simp add: id_clone_h_def hbind_def get_id_def malloc_def nth_append)
qed

text \<open>
  The loop of \<open>table_clone\<close> on a laid out sequence \<open>es\<close> below the address \<open>n0\<close>, with
  the clone so far laid out at or above \<open>n0\<close>: with enough fuel it returns, the clone
  then holds its former entries followed by the clones of \<open>es\<close>, and nothing below \<open>n0\<close>
  has been written.
\<close>

lemma table_clone_loop_h_located:
  assumes "contains h (objs_entries es)" and "clonable (erase_entries es)"
    and "contains h (objs_table T)" and "proper T"
    and "\<forall>x \<in> set (addrs (objs_table T)). n0 \<le> x" and "distinct (addrs (objs_table T))"
    and "\<forall>x \<in> set (addrs (objs_entries es)). x < n0" and "n0 \<le> length h"
  shows "\<exists>T' h' N.
      (\<forall>n\<ge>N. table_clone_loop_h n (head_ptr es) (tptr T) h = Done (tptr T') h' [])
      \<and> contains h' (objs_table T') \<and> proper T'
      \<and> (\<forall>x \<in> set (addrs (objs_table T')). n0 \<le> x) \<and> distinct (addrs (objs_table T'))
      \<and> length h \<le> length h' \<and> (\<forall>x < n0. h' ! x = h ! x)
      \<and> erase_table T' = of_list (entries (erase_table T) @ cloned_entries (erase_entries es))"
  using assms
proof (induction "size_list size es" arbitrary: es T h n0 rule: less_induct)
  case less
  show ?case
  proof (cases es)
    case Nil
    have "\<forall>n\<ge>1. table_clone_loop_h n (head_ptr es) (tptr T) h = Done (tptr T) h []"
    proof (intro allI impI)
      fix n :: nat assume "1 \<le> n"
      then obtain m where "n = Suc m" by (cases n) auto
      then show "table_clone_loop_h n (head_ptr es) (tptr T) h = Done (tptr T) h []"
        using Nil by (simp add: hret_def)
    qed
    moreover have "erase_table T = of_list (entries (erase_table T))"
      using less.prems(4) by (cases T) (simp_all add: of_list_def)
    ultimately show ?thesis
      using less.prems Nil
      by (intro exI [of _ T] exI [of _ h] exI [of _ 1]) simp
  next
    case (Cons e es')
    obtain a i t v where e: "e = LEntry a i t v" by (cases e)
    let ?c0 = "\<lparr>ec_id = map_option fst i, ec_type = t, ec_value = vptr v,
                ec_next = head_ptr es'\<rparr>"
    from less.prems(1) Cons e have a: "a < length h" "h ! a = O_entry ?c0"
      and ci: "contains h (objs_id i)" and cval: "contains h (objs_value v)"
      and ces': "contains h (objs_entries es')"
      by simp_all
    from less.prems(2) Cons e have clv: "clonable_value t (erase_value v)"
      and cle': "clonable (erase_entries es')"
      by simp_all
    have Tlt: "\<And>x. x \<in> set (addrs (objs_table T)) \<Longrightarrow> x < length h"
      using less.prems(3) by (rule contains_below)
    \<comment> \<open>the id and the new entry\<close>
    from id_clone_h_located [OF ci] obtain i' h1 where
      idc: "id_clone_h (map_option fst i) h = Done (map_option fst i') h1 []"
      and ci1: "contains h1 (objs_id i')" and ai: "set (addrs (objs_id i')) \<subseteq> {length h}"
      and len1: "length h \<le> length h1" and fr1: "\<forall>x < length h. h1 ! x = h ! x"
      and eri: "map_option snd i' = map_option snd i"
      by blast
    let ?ea = "length h1"
    let ?c1 = "\<lparr>ec_id = map_option fst i', ec_type = t, ec_value = None, ec_next = None\<rparr>"
    let ?h2 = "h1 @ [O_entry ?c1]"
    have en: "entry_new_h (map_option fst i') t None h1 = Done (Some ?ea) ?h2 []"
      by (simp add: entry_new_h_def malloc_def)
    have ea2: "?ea < length ?h2" "?h2 ! ?ea = O_entry ?c1" by simp_all
    have fr2: "\<forall>x < length h. ?h2 ! x = h ! x" using fr1 len1 by (simp add: nth_append)
    have cval2: "contains ?h2 (objs_value v)"
      using cval by (rule contains_frame) (use fr2 len1 in \<open>auto dest: contains_below [OF cval]\<close>)
    \<comment> \<open>the payload\<close>
    have nested: "\<And>esn. \<exists>b. v = LV_table (LTab b esn) \<Longrightarrow>
      \<exists>Tn h3 Nn. (\<forall>n\<ge>Nn. table_clone_loop_h n (head_ptr esn) None ?h2 = Done (tptr Tn) h3 [])
        \<and> contains h3 (objs_table Tn)
        \<and> (\<forall>x \<in> set (addrs (objs_table Tn)). length ?h2 \<le> x)
        \<and> distinct (addrs (objs_table Tn))
        \<and> length ?h2 \<le> length h3 \<and> (\<forall>x < length ?h2. h3 ! x = ?h2 ! x)
        \<and> erase_table Tn = of_list (cloned_entries (erase_entries esn))"
    proof -
      fix esn assume "\<exists>b. v = LV_table (LTab b esn)"
      then obtain b where v: "v = LV_table (LTab b esn)" by blast
      have sz: "size_list size esn < size_list size es"
        using Cons e v nested_entries_size by simp
      have c2: "contains ?h2 (objs_entries esn)" using cval2 v by simp
      have cl: "clonable (erase_entries esn)" using clv v by simp
      have lo: "\<forall>x \<in> set (addrs (objs_entries esn)). x < length ?h2"
        using contains_below [OF c2] by blast
      from less.hyps [OF sz c2 cl, of LNull "length ?h2"] lo
      show "\<exists>Tn h3 Nn. (\<forall>n\<ge>Nn. table_clone_loop_h n (head_ptr esn) None ?h2 = Done (tptr Tn) h3 [])
        \<and> contains h3 (objs_table Tn)
        \<and> (\<forall>x \<in> set (addrs (objs_table Tn)). length ?h2 \<le> x)
        \<and> distinct (addrs (objs_table Tn))
        \<and> length ?h2 \<le> length h3 \<and> (\<forall>x < length ?h2. h3 ! x = ?h2 ! x)
        \<and> erase_table Tn = of_list (cloned_entries (erase_entries esn))"
        by simp blast
    qed
    from clone_payload_step [OF clv cval2 ea2 nested] obtain v' h4 N1 where
      pay: "\<forall>n\<ge>N1.
         (if t = T_PATH \<or> t = C_COMPOSON \<or> t = C_NEST \<or> t = C_DEREF
          then hbind (table_clone_h n (vptr v)) (set_value_h (Some ?ea))
          else if t = C_MANIFOLD
          then hbind manifold_new_h (set_value_h (Some ?ea))
          else if t = C_POSITIONAL \<or> t = C_GRPREF
          then hbind (strdup_h (vptr v)) (set_value_h (Some ?ea))
          else hstop Exit_failure) ?h2 = Done () h4 []"
      and cv4: "contains h4 (objs_value v')"
      and av: "\<forall>x \<in> set (addrs (objs_value v')). length ?h2 \<le> x"
      and dv: "distinct (addrs (objs_value v'))"
      and len4: "length ?h2 \<le> length h4"
      and fr4: "\<forall>x < length ?h2. x \<noteq> ?ea \<longrightarrow> h4 ! x = ?h2 ! x"
      and ea4: "h4 ! ?ea = O_entry (?c1\<lparr>ec_value := vptr v'\<rparr>)"
      and erv: "erase_value v' = cloned_value (erase_value v)"
      by blast
    have fr4h: "\<forall>x < length h. h4 ! x = h ! x"
      using fr4 fr2 len1 by auto
    \<comment> \<open>adding the new entry to the clone\<close>
    have T4: "contains h4 (objs_table T)"
      using less.prems(3) by (rule contains_frame) (use fr4h len1 len4 Tlt in auto)
    have ea4': "?ea < length h4"
      "h4 ! ?ea = O_entry \<lparr>ec_id = map_option fst i', ec_type = t, ec_value = vptr v',
                            ec_next = None\<rparr>"
      using len4 ea4 by simp_all
    have ci4: "contains h4 (objs_id i')"
      using ci1
    proof (rule contains_frame)
      show "length h1 \<le> length h4" using len4 by simp
      show "\<forall>x \<in> set (addrs (objs_id i')). h4 ! x = h1 ! x"
      proof
        fix x assume x: "x \<in> set (addrs (objs_id i'))"
        with contains_below [OF ci1] have "x < length h1" by blast
        with fr4 show "h4 ! x = h1 ! x" by (simp add: nth_append)
      qed
    qed
    have p4: "contains h4 (objs_id i' @ objs_value v')" using ci4 cv4 by simp
    have idlt: "\<And>x. x \<in> set (addrs (objs_id i')) \<Longrightarrow> x = length h"
      using ai by auto
    have dp: "distinct (addrs (objs_id i' @ objs_value v'))"
    proof -
      have "distinct (addrs (objs_id i'))" by (cases i') auto
      moreover have "set (addrs (objs_id i')) \<inter> set (addrs (objs_value v')) = {}"
        using idlt av len1 by fastforce
      ultimately show ?thesis using dv by simp
    qed
    have plo: "\<And>x. x \<in> set (addrs (objs_id i' @ objs_value v')) \<Longrightarrow> length h \<le> x"
      using idlt av len1 by fastforce
    have dj: "set (addrs (objs_id i' @ objs_value v')) \<inter> set (addrs (objs_table T)) = {}"
      using plo Tlt by fastforce
    from table_add_h_located [OF T4 less.prems(4,6) ea4' p4 dp dj] obtain T1 h6 where
      add: "table_add_h (tptr T) (Some ?ea) h4 = Done (tptr T1) h6 []"
      and c6: "contains h6 (objs_table T1)" and pr6: "proper T1"
      and d6: "distinct (addrs (objs_table T1))"
      and s6: "set (addrs (objs_table T1)) \<subseteq>
          set (addrs (objs_table T)) \<union> set (addrs (objs_id i' @ objs_value v'))
          \<union> {length h4, Suc (length h4)}"
      and len6: "length h4 \<le> length h6"
      and fr6: "\<forall>x < length h4. x \<notin> set (addrs (objs_table T)) \<longrightarrow> h6 ! x = h4 ! x"
      and er6: "erase_table T1 =
          of_list (entries (erase_table T) @ [Entry (map_option snd i') t (erase_value v')])"
      by blast
    \<comment> \<open>the rest of the sequence\<close>
    have lenh: "length h \<le> length h4" using len1 len4 by simp
    have fr6h: "\<forall>x < n0. h6 ! x = h ! x"
    proof (intro allI impI)
      fix x assume x: "x < n0"
      with less.prems(5) have "x \<notin> set (addrs (objs_table T))" by auto
      moreover from x less.prems(8) have "x < length h" by simp
      ultimately show "h6 ! x = h ! x" using fr6 fr4h lenh by auto
    qed
    have es'lo: "\<forall>x \<in> set (addrs (objs_entries es')). x < n0"
      using less.prems(7) Cons e by simp
    have ces6: "contains h6 (objs_entries es')"
      using ces' by (rule contains_frame) (use es'lo fr6h lenh len6 in auto)
    have T1lo: "\<forall>x \<in> set (addrs (objs_table T1)). n0 \<le> x"
    proof
      fix x assume "x \<in> set (addrs (objs_table T1))"
      with s6 have "x \<in> set (addrs (objs_table T)) \<or>
          x \<in> set (addrs (objs_id i' @ objs_value v')) \<or> x = length h4 \<or> x = Suc (length h4)"
        by auto
      then show "n0 \<le> x"
        using less.prems(5,8) plo [of x] lenh by auto
    qed
    have n06: "n0 \<le> length h6" using less.prems(8) lenh len6 by simp
    have sz': "size_list size es' < size_list size es" using Cons by simp
    from less.hyps [OF sz' ces6 cle' c6 pr6 T1lo d6 es'lo n06] obtain T' h' N2 where
      rest: "\<forall>n\<ge>N2. table_clone_loop_h n (head_ptr es') (tptr T1) h6 = Done (tptr T') h' []"
      and c': "contains h' (objs_table T')" and pr': "proper T'"
      and lo': "\<forall>x \<in> set (addrs (objs_table T')). n0 \<le> x"
      and d': "distinct (addrs (objs_table T'))"
      and len': "length h6 \<le> length h'" and fr': "\<forall>x < n0. h' ! x = h6 ! x"
      and er': "erase_table T' =
          of_list (entries (erase_table T1) @ cloned_entries (erase_entries es'))"
      by blast
    \<comment> \<open>one round of the loop\<close>
    have run: "\<forall>n\<ge>Suc (max N1 N2).
        table_clone_loop_h n (head_ptr es) (tptr T) h = Done (tptr T') h' []"
    proof (intro allI impI)
      fix n :: nat assume "Suc (max N1 N2) \<le> n"
      then obtain m where m: "n = Suc m" "N1 \<le> m" "N2 \<le> m" by (cases n) auto
      from pay m(2) have p: "(if t = T_PATH \<or> t = C_COMPOSON \<or> t = C_NEST \<or> t = C_DEREF
          then hbind (table_clone_h m (vptr v)) (set_value_h (Some ?ea))
          else if t = C_MANIFOLD
          then hbind manifold_new_h (set_value_h (Some ?ea))
          else if t = C_POSITIONAL \<or> t = C_GRPREF
          then hbind (strdup_h (vptr v)) (set_value_h (Some ?ea))
          else hstop Exit_failure) ?h2 = Done () h4 []" by blast
      from rest m(3) have r: "table_clone_loop_h m (head_ptr es') (tptr T1) h6 = Done (tptr T') h' []"
        by blast
      have g: "get_entry (Some a) h = Done ?c0 h []" using a by (rule get_entry_at)
      show "table_clone_loop_h n (head_ptr es) (tptr T) h = Done (tptr T') h' []"
        unfolding m(1) Cons e
        using g idc en p add r
        by (simp add: hbind_def split del: if_split cong del: if_weak_cong)
    qed
    have er: "erase_table T' =
        of_list (entries (erase_table T) @ cloned_entries (erase_entries es))"
      using er' er6 eri erv Cons e by simp
    have "length h \<le> length h'" using lenh len6 len' by simp
    moreover have "\<forall>x < n0. h' ! x = h ! x" using fr' fr6h by simp
    ultimately show ?thesis
      using run c' pr' lo' d' er
      by (intro exI [of _ T'] exI [of _ h'] exI [of _ "Suc (max N1 N2)"]) simp
  qed
qed

subsection \<open>Cloning\<close>

lemma entries_erase_of_list: "entries (of_list xs) = xs"
  by (simp add: of_list_def)

text \<open>
  \<open>table_add\<close> in the store does what \<open>table_add\<close> on table values does: the model
  of the lookups, which works on values, agrees with the store on laid out tables.
\<close>

lemma table_add_h_refines_table_add:
  assumes "contains h (objs_table T)" and "proper T" and "distinct (addrs (objs_table T))"
    and "ea < length h"
    and "h ! ea = O_entry \<lparr>ec_id = map_option fst i, ec_type = t, ec_value = vptr v,
                         ec_next = None\<rparr>"
    and "contains h (objs_id i @ objs_value v)"
    and "distinct (addrs (objs_id i @ objs_value v))"
    and "set (addrs (objs_id i @ objs_value v)) \<inter> set (addrs (objs_table T)) = {}"
  shows "\<exists>T' h'. table_add_h (tptr T) (Some ea) h = Done (tptr T') h' []
      \<and> contains h' (objs_table T')
      \<and> table_add (erase_table T) (Entry (map_option snd i) t (erase_value v))
          = ret (erase_table T')"
proof -
  from table_add_h_located [OF assms] obtain T' h' where
    1: "table_add_h (tptr T) (Some ea) h = Done (tptr T') h' []"
       "contains h' (objs_table T')"
       "erase_table T' =
          of_list (entries (erase_table T) @ [Entry (map_option snd i) t (erase_value v)])"
    by blast
  have "erase_table T = of_list (entries (erase_table T))"
    using assms(2) by (cases T) (simp_all add: of_list_def)
  then have "table_add (erase_table T) (Entry (map_option snd i) t (erase_value v))
      = ret (erase_table T')"
    using table_add_of_list [of "entries (erase_table T)"] 1(3) by simp
  with 1 show ?thesis by blast
qed

text \<open>
  A manifold is cloned with an empty payload: the clone of the table at 9 of \<open>ex_store\<close>,
  whose only entry is a manifold with the payload \<open>state\<close>.
\<close>

lemma table_clone_h_manifold_example:
  "table_clone_h 3 (Some 9) ex_store =
     Done (Some 14)
       (ex_store @
        [O_id (Id (Some ''a'')),
         O_entry \<lparr>ec_id = Some 10, ec_type = C_MANIFOLD, ec_value = Some 12, ec_next = None\<rparr>,
         O_manifold (Manifold []),
         O_entry \<lparr>ec_id = Some 10, ec_type = C_MANIFOLD, ec_value = Some 12, ec_next = None\<rparr>,
         O_table \<lparr>tc_head = Some 13, tc_tail = Some 13\<rparr>])
       []"
  by code_simp

text \<open>
  C6. Let the store contain the table \<open>t\<close> (a laid out table \<open>lt\<close>: every cell, id and
  payload at its address), with entries of the seven types of the data model. With
  enough fuel \<open>table_clone\<close> returns, and the result is a laid out table \<open>lt'\<close> such that:
  its value is the clone value of \<open>t\<close> (the same ids and types in the same order, the
  same strings, the nested tables cloned, an empty payload for every manifold);
  if \<open>t\<close> has no manifold entry, the flattened entry sequences of \<open>t\<close> and the clone
  are equal in ids, types and terminal payloads;
  every object that existed before the call is unchanged;
  every object of the clone (cell, table, id, string, manifold) is at a new address, and
  no two are at the same address, so the clone shares nothing with \<open>t\<close>;
  and whatever is written afterwards into the objects of the clone, the store still
  contains \<open>t\<close> as it was.
\<close>

theorem table_clone_h_independent:
  assumes "contains h (objs_table lt)" and "clonable (entries (erase_table lt))"
  shows "\<exists>lt' h' N.
     (\<forall>n\<ge>N. table_clone_h n (tptr lt) h = Done (tptr lt') h' [])
     \<and> contains h' (objs_table lt')
     \<and> erase_table lt' = cloned_table (erase_table lt)
     \<and> (no_manifold (entries (erase_table lt)) \<longrightarrow>
          flatten_entries (erase_table lt') = flatten_entries (erase_table lt))
     \<and> length h \<le> length h' \<and> (\<forall>x < length h. h' ! x = h ! x)
     \<and> (\<forall>x \<in> set (addrs (objs_table lt')). length h \<le> x)
     \<and> distinct (addrs (objs_table lt'))
     \<and> (\<forall>h''. length h'' = length h'
            \<and> (\<forall>x. x \<notin> set (addrs (objs_table lt')) \<longrightarrow> h'' ! x = h' ! x)
          \<longrightarrow> contains h'' (objs_table lt))"
proof -
  have "\<exists>lt' h' N.
     (\<forall>n\<ge>N. table_clone_h n (tptr lt) h = Done (tptr lt') h' [])
     \<and> contains h' (objs_table lt')
     \<and> erase_table lt' = cloned_table (erase_table lt)
     \<and> length h \<le> length h' \<and> (\<forall>x < length h. h' ! x = h ! x)
     \<and> (\<forall>x \<in> set (addrs (objs_table lt')). length h \<le> x)
     \<and> distinct (addrs (objs_table lt'))"
  proof (cases lt)
    case LNull
    have "\<forall>n\<ge>1. table_clone_h n (tptr lt) h = Done (tptr LNull) h []"
    proof (intro allI impI)
      fix n :: nat assume "1 \<le> n"
      then obtain m where "n = Suc m" by (cases n) auto
      then show "table_clone_h n (tptr lt) h = Done (tptr LNull) h []"
        using LNull by (simp add: hret_def)
    qed
    then show ?thesis using LNull
      by (intro exI [of _ LNull] exI [of _ h] exI [of _ 1]) (simp add: cloned_table_def)
  next
    case (LTab b es)
    from assms(1) LTab have b: "b < length h"
      "h ! b = O_table \<lparr>tc_head = head_ptr es, tc_tail = last_ptr es\<rparr>"
      and ces: "contains h (objs_entries es)"
      by simp_all
    from assms(2) LTab have cl: "clonable (erase_entries es)" by simp
    have lo: "\<forall>x \<in> set (addrs (objs_entries es)). x < length h"
      using contains_below [OF ces] by blast
    from table_clone_loop_h_located [OF ces cl, of LNull "length h"] lo
    obtain T' h' N where
      run: "\<forall>n\<ge>N. table_clone_loop_h n (head_ptr es) None h = Done (tptr T') h' []"
      and c': "contains h' (objs_table T')"
      and lo': "\<forall>x \<in> set (addrs (objs_table T')). length h \<le> x"
      and d': "distinct (addrs (objs_table T'))"
      and len': "length h \<le> length h'" and fr': "\<forall>x < length h. h' ! x = h ! x"
      and er': "erase_table T' = of_list (cloned_entries (erase_entries es))"
      by auto
    have "\<forall>n\<ge>Suc N. table_clone_h n (tptr lt) h = Done (tptr T') h' []"
    proof (intro allI impI)
      fix n :: nat assume "Suc N \<le> n"
      then obtain m where m: "n = Suc m" "N \<le> m" by (cases n) auto
      with run have "table_clone_loop_h m (head_ptr es) None h = Done (tptr T') h' []" by blast
      then show "table_clone_h n (tptr lt) h = Done (tptr T') h' []"
        using m LTab b by (simp add: hbind_def get_table_def)
    qed
    then show ?thesis using c' lo' d' len' fr' er' LTab
      by (intro exI [of _ T'] exI [of _ h'] exI [of _ "Suc N"]) (simp add: cloned_table_def)
  qed
  then obtain lt' h' N where
    run: "\<forall>n\<ge>N. table_clone_h n (tptr lt) h = Done (tptr lt') h' []"
    and c': "contains h' (objs_table lt')"
    and er: "erase_table lt' = cloned_table (erase_table lt)"
    and len: "length h \<le> length h'" and fr: "\<forall>x < length h. h' ! x = h ! x"
    and lo: "\<forall>x \<in> set (addrs (objs_table lt')). length h \<le> x"
    and d: "distinct (addrs (objs_table lt'))"
    by blast
  have fl: "no_manifold (entries (erase_table lt)) \<longrightarrow>
          flatten_entries (erase_table lt') = flatten_entries (erase_table lt)"
    using cloned_flatten [OF assms(2)] er by simp
  have ind: "\<forall>h''. length h'' = length h'
            \<and> (\<forall>x. x \<notin> set (addrs (objs_table lt')) \<longrightarrow> h'' ! x = h' ! x)
          \<longrightarrow> contains h'' (objs_table lt)"
  proof (intro allI impI)
    fix h'' assume a: "length h'' = length h'
            \<and> (\<forall>x. x \<notin> set (addrs (objs_table lt')) \<longrightarrow> h'' ! x = h' ! x)"
    show "contains h'' (objs_table lt)"
      using assms(1)
    proof (rule contains_frame)
      show "length h \<le> length h''" using a len by simp
      show "\<forall>x \<in> set (addrs (objs_table lt)). h'' ! x = h ! x"
      proof
        fix x assume "x \<in> set (addrs (objs_table lt))"
        with contains_below [OF assms(1)] have x: "x < length h" by blast
        with lo have "x \<notin> set (addrs (objs_table lt'))" by auto
        with a x fr show "h'' ! x = h ! x" by simp
      qed
    qed
  qed
  from run c' er fl len fr lo d ind show ?thesis by blast
qed

text \<open>
  The clone of the table of \<open>ex_store\<close>: eleven new objects, of which four are the copies
  that \<open>table_add\<close> left behind; the table at 8 is as it was.
\<close>

theorem table_clone_h_independent_witness:
  "contains ex_store (objs_table ex_lt) \<and> clonable (entries (erase_table ex_lt)) \<and>
   no_manifold (entries (erase_table ex_lt)) \<and>
   (\<exists>lt' h' N. table_clone_h N (tptr ex_lt) ex_store = Done (tptr lt') h' []
      \<and> contains h' (objs_table lt')
      \<and> erase_table lt' = cloned_table (erase_table ex_lt)
      \<and> flatten_entries (erase_table lt') = flatten_entries (erase_table ex_lt)
      \<and> length ex_store \<le> length h'
      \<and> distinct (addrs (objs_table lt'))
      \<and> contains h' (objs_table ex_lt))"
proof -
  have a: "contains ex_store (objs_table ex_lt)"
    by (simp add: ex_store_def ex_lt_def cell_def last_ptr_def)
  have b: "clonable (entries (erase_table ex_lt))"
    by (simp add: ex_lt_def four_recursive_def)
  have c: "no_manifold (entries (erase_table ex_lt))"
    by (simp add: ex_lt_def no_manifold_def four_recursive_def)
  from table_clone_h_independent [OF a b] obtain lt' h' N where
    1: "\<forall>n\<ge>N. table_clone_h n (tptr ex_lt) ex_store = Done (tptr lt') h' []"
    and 2: "contains h' (objs_table lt')"
      "erase_table lt' = cloned_table (erase_table ex_lt)"
      "no_manifold (entries (erase_table ex_lt)) \<longrightarrow>
          flatten_entries (erase_table lt') = flatten_entries (erase_table ex_lt)"
      "length ex_store \<le> length h'"
      "distinct (addrs (objs_table lt'))"
    and 3: "\<forall>h''. length h'' = length h'
            \<and> (\<forall>x. x \<notin> set (addrs (objs_table lt')) \<longrightarrow> h'' ! x = h' ! x)
          \<longrightarrow> contains h'' (objs_table ex_lt)"
    by blast
  from 1 have "table_clone_h N (tptr ex_lt) ex_store = Done (tptr lt') h' []" by simp
  moreover from 3 have "contains h' (objs_table ex_lt)" by simp
  ultimately show ?thesis using a b c 2 by blast
qed

end
